theory Spec2Isabelle
  imports Complex_Main "HOL-Library.Product_Lexorder"
begin

section \<open>Python exceptions\<close>

text \<open>
  Names are the source's, without the leading underscore of a private name, and with a
  prefix or suffix where a name is taken.

  Every exception class that the modelled functions raise. \<open>TransportError\<close> and \<open>OtherError\<close>
  carry a message: exception instances of these kinds are stored and compared by the
  protocol cache.
\<close>

datatype error =
    ValueError
  | TypeError
  | KeyError
  | AttributeError
  | InvalidTypeError
  | InvalidField
  | InvalidFieldForVersion
  | SessionPoolMaxSizeReached
  | SessionPoolMinSizeReached
  | TransportError string
  | RateLimitError
  | RedirectError
  | MalformedResponseError
  | CASError
  | ErrorInvalidSchemaVersionForMailboxVersion
  | UnauthorizedError
  | OtherError string

section \<open>util.py: chunkify\<close>

text \<open>
  \<^verbatim>\<open>range(start, stop, step)\<close> on Python integers. A zero step raises ValueError; the two
  directions are separate loops.
\<close>

function range_up :: "int \<Rightarrow> int \<Rightarrow> int \<Rightarrow> int list" where
  "range_up i stop step = (if 0 < step \<and> i < stop then i # range_up (i + step) stop step else [])"
  by pat_completeness auto
termination
  by (relation "measure (\<lambda>(i, stop, step). nat (stop - i))") auto

declare range_up.simps [simp del]

function range_down :: "int \<Rightarrow> int \<Rightarrow> int \<Rightarrow> int list" where
  "range_down i stop step = (if step < 0 \<and> stop < i then i # range_down (i + step) stop step else [])"
  by pat_completeness auto
termination
  by (relation "measure (\<lambda>(i, stop, step). nat (i - stop))") auto

declare range_down.simps [simp del]

definition py_range :: "int \<Rightarrow> int \<Rightarrow> int \<Rightarrow> error + int list" where
  "py_range start stop step =
     (if step = 0 then Inl ValueError
      else if 0 < step then Inr (range_up start stop step)
      else Inr (range_down start stop step))"

text \<open>
  \<^verbatim>\<open>xs[i:j]\<close>: a negative bound counts from the end, and both bounds are clamped to the
  list.
\<close>

definition slice_bound :: "nat \<Rightarrow> int \<Rightarrow> nat" where
  "slice_bound n i = (if i < 0 then nat (max 0 (int n + i)) else min (nat i) n)"

definition py_slice :: "'a list \<Rightarrow> int \<Rightarrow> int \<Rightarrow> 'a list" where
  "py_slice xs i j =
     (let lo = slice_bound (length xs) i; hi = slice_bound (length xs) j
      in take (hi - lo) (drop lo xs))"

text \<open>
  The branch of \<open>chunkify\<close> for an iterable with \<^verbatim>\<open>__getitem__\<close> that is not a QuerySet
  (a list or a tuple):
  \<^verbatim>\<open>for i in range(0, len(iterable), chunksize): yield iterable[i : i + chunksize]\<close>.
  The result is the list of the chunks the generator yields, or the error it raises.
\<close>

definition chunkify :: "'a list \<Rightarrow> int \<Rightarrow> error + 'a list list" where
  "chunkify iterable chunksize =
     (case py_range 0 (int (length iterable)) chunksize of
        Inl e \<Rightarrow> Inl e
      | Inr idxs \<Rightarrow> Inr (map (\<lambda>i. py_slice iterable i (i + chunksize)) idxs))"

text \<open>
  The other branch (a generator, set, map or QuerySet): elements are collected into a
  chunk that is yielded when it reaches \<open>chunksize\<close> elements, and a last non-empty chunk
  is yielded at the end.
\<close>

fun chunkify_iter :: "'a list \<Rightarrow> 'a list \<Rightarrow> int \<Rightarrow> 'a list list" where
  "chunkify_iter chunk [] chunksize = (if chunk \<noteq> [] then [chunk] else [])"
| "chunkify_iter chunk (i # rest) chunksize =
     (let chunk' = chunk @ [i]
      in if int (length chunk') = chunksize then chunk' # chunkify_iter [] rest chunksize
         else chunkify_iter chunk' rest chunksize)"

section \<open>util.py and protocol.py: responses, retry policies, post_ratelimited\<close>

text \<open>
  A header value is a string sent by the server, or an exception object: \<open>DummyResponse\<close>
  instances built by \<open>post_ratelimited\<close> carry the caught exception under the keys
  \<^verbatim>\<open>TimeoutException\<close>, \<^verbatim>\<open>TokenExpiredError\<close> and \<^verbatim>\<open>KeyError\<close>.
\<close>

datatype hval = HStr string | HExc error

record response =
  status_code :: int
  headers :: "(string \<times> hval) list"
  content :: string
  url :: string
  history :: "string list"

definition DummyResponse :: "string \<Rightarrow> (string \<times> hval) list \<Rightarrow> int \<Rightarrow> response" where
  "DummyResponse u hs code =
     \<lparr>status_code = code, headers = hs, content = [], url = u, history = []\<rparr>"

definition truthy :: "hval option \<Rightarrow> bool" where
  "truthy v = (case v of None \<Rightarrow> False | Some (HStr s) \<Rightarrow> s \<noteq> [] | Some (HExc e) \<Rightarrow> True)"

definition lower_char :: "char \<Rightarrow> char" where
  "lower_char c = (let n = (of_char c :: nat) in if 65 \<le> n \<and> n \<le> 90 then char_of (n + 32) else c)"

definition lower :: "string \<Rightarrow> string" where
  "lower s = map lower_char s"

fun contains :: "string \<Rightarrow> string \<Rightarrow> bool" where
  "contains sub [] = (sub = [])"
| "contains sub (c # cs) = (take (length sub) (c # cs) = sub \<or> contains sub cs)"

definition RETRY_WAIT :: int where
  "RETRY_WAIT = 10"

definition MAX_REDIRECTS :: nat where
  "MAX_REDIRECTS = 10"

subsection \<open>Retry policies\<close>

text \<open>
  \<open>FailFast\<close> has no state. \<open>FaultTolerance\<close> holds \<open>max_wait\<close> and the private
  \<^verbatim>\<open>_back_off_until\<close>. Clock readings (\<^verbatim>\<open>datetime.now()\<close>, \<^verbatim>\<open>time.monotonic()\<close>) are inputs.
\<close>

datatype retry_policy = FailFast | FaultTolerance (max_wait: real) (until: "real option")

definition DEFAULT_BACKOFF :: int where
  "DEFAULT_BACKOFF = 60"

fun fail_fast :: "retry_policy \<Rightarrow> bool" where
  "fail_fast FailFast = True"
| "fail_fast (FaultTolerance mw u) = False"

text \<open>
  The property \<open>back_off_until\<close>, read at clock time \<open>now\<close>: the value, and the policy
  after the read (an expired value is reset).
\<close>

fun back_off_until :: "retry_policy \<Rightarrow> real \<Rightarrow> real option \<times> retry_policy" where
  "back_off_until FailFast now = (None, FailFast)"
| "back_off_until (FaultTolerance mw None) now = (None, FaultTolerance mw None)"
| "back_off_until (FaultTolerance mw (Some t)) now =
     (if t < now then (None, FaultTolerance mw None) else (Some t, FaultTolerance mw (Some t)))"

fun back_off :: "retry_policy \<Rightarrow> real \<Rightarrow> int option \<Rightarrow> error + retry_policy" where
  "back_off FailFast now seconds = Inl ValueError"
| "back_off (FaultTolerance mw u) now seconds =
     (let secs = (case seconds of None \<Rightarrow> DEFAULT_BACKOFF | Some s \<Rightarrow> s)
      in Inr (FaultTolerance mw (Some (now + real_of_int secs))))"

fun may_retry_on_error :: "retry_policy \<Rightarrow> response \<Rightarrow> real \<Rightarrow> error + bool" where
  "may_retry_on_error FailFast r w = Inr False"
| "may_retry_on_error (FaultTolerance mw u) r w =
     (if status_code r \<notin> {301, 302, 401, 500, 503} then Inr False
      else if w > mw then Inl RateLimitError
      else if status_code r = 401 then Inr True
      else if map_of (headers r) ''connection'' = Some (HStr ''close'') then Inr True
      else if status_code r = 302 \<and>
              (case map_of (headers r) ''location'' of
                 None \<Rightarrow> lower [] = ''/ews/genericerrorpage.htm?aspxerrorpath=/ews/exchange.asmx''
               | Some (HStr l) \<Rightarrow> lower l = ''/ews/genericerrorpage.htm?aspxerrorpath=/ews/exchange.asmx''
               | Some (HExc e) \<Rightarrow> False)
           then Inr True
      else if status_code r = 503 then Inr True
      else if status_code r = 500 \<and> contains ''Server Error in '/EWS' Application'' (content r)
           then Inr True
      else Inr False)"

text \<open>\<open>raise_response_errors\<close> always raises; the model returns the exception.\<close>

definition raise_response_errors :: "retry_policy \<Rightarrow> response \<Rightarrow> error" where
  "raise_response_errors p r =
     (if truthy (map_of (headers r) ''X-CasErrorCode'') then
        (case map_of (headers r) ''X-CasErrorCode'' of Some (HExc e) \<Rightarrow> AttributeError | _ \<Rightarrow> CASError)
      else if status_code r = 500 \<and>
          (contains ''The specified server version is invalid'' (content r)
           \<or> contains ''ErrorInvalidSchemaVersionForMailboxVersion'' (content r))
        then ErrorInvalidSchemaVersionForMailboxVersion
      else if contains ''The referenced account is currently locked out'' (content r)
        then UnauthorizedError
      else if status_code r = 401 \<and> fail_fast p then UnauthorizedError
      else (case map_of (headers r) ''TimeoutException'' of
              Some (HExc e) \<Rightarrow> e
            | Some (HStr s) \<Rightarrow> TypeError
            | None \<Rightarrow> MalformedResponseError))"

subsection \<open>Helpers of post_ratelimited\<close>

definition is_xml :: "string \<Rightarrow> bool" where
  "is_xml text =
     (let bom = [CHR 0xEF, CHR 0xBB, CHR 0xBF];
          pre = (if take 3 text = bom then take 5 (drop 3 text) else take 5 text)
      in pre = ''<?xml'')"

definition need_new_credentials :: "response \<Rightarrow> bool" where
  "need_new_credentials r = (status_code r = 401 \<and> truthy (map_of (headers r) ''TokenExpiredError''))"

text \<open>
  \<^verbatim>\<open>_retry_after\<close>: the Retry-After header value or the given wait, whichever is larger.
  \<open>py_int\<close> is Python's \<^verbatim>\<open>int\<close> on a string (\<open>None\<close> when it raises ValueError); the
  default \<^verbatim>\<open>"0"\<close> of the lookup parses to 0. \<^verbatim>\<open>int\<close> of an exception object raises
  TypeError, which \<^verbatim>\<open>_retry_after\<close> does not catch.
\<close>

definition retry_after :: "(string \<Rightarrow> int option) \<Rightarrow> response \<Rightarrow> int \<Rightarrow> error + int" where
  "retry_after py_int r wait =
     (case map_of (headers r) ''Retry-After'' of
        Some (HExc e) \<Rightarrow> Inl TypeError
      | Some (HStr s) \<Rightarrow>
          (case py_int s of
             None \<Rightarrow> Inr wait
           | Some n \<Rightarrow> if n > wait then Inr n else Inr wait)
      | None \<Rightarrow> if 0 > wait then Inr 0 else Inr wait)"

text \<open>
  \<open>urlparse\<close> is the standard library's: scheme, netloc and path of a URL.
\<close>

type_synonym urlparser = "string \<Rightarrow> string \<times> string \<times> string"

definition split_url :: "urlparser \<Rightarrow> string \<Rightarrow> bool \<times> string \<times> string" where
  "split_url urlparse u =
     (case urlparse u of (scheme, netloc, path) \<Rightarrow> (scheme = ''https'', lower netloc, path))"

datatype redirect = RelativeRedirect string | Fails error | RedirectTo string

definition get_redirect_url :: "urlparser \<Rightarrow> response \<Rightarrow> bool \<Rightarrow> bool \<Rightarrow> redirect" where
  "get_redirect_url urlparse r allow_relative require_relative =
     (case map_of (headers r) ''location'' of
        None \<Rightarrow> Fails (TransportError ''HTTP redirect but no location header'')
      | Some (HExc e) \<Rightarrow> Fails TypeError
      | Some (HStr loc) \<Rightarrow>
          if loc = [] then Fails (TransportError ''HTTP redirect but no location header'')
          else
            (case split_url urlparse loc of (redirect_has_ssl, redirect_server, redirect_path) \<Rightarrow>
             let request_url = (case history r of [] \<Rightarrow> url r | h # _ \<Rightarrow> h) in
             (case split_url urlparse request_url of (request_has_ssl, request_server, _) \<Rightarrow>
             (case split_url urlparse (url r) of (response_has_ssl, response_server, response_path) \<Rightarrow>
              let relative = (redirect_server = []);
                  redirect_server' = (if relative then response_server else redirect_server);
                  redirect_has_ssl' = (if relative then response_has_ssl else redirect_has_ssl);
                  redirect_path' =
                    (if take 1 redirect_path = ''/'' then redirect_path
                     else (if response_path = [] then ''/'' else response_path) @ redirect_path);
                  redirect_url =
                    (if redirect_has_ssl' then ''https'' else ''http'') @ ''://'' @ redirect_server' @ redirect_path'
              in if redirect_url = request_url
                   then Fails (TransportError ''Redirect to same location'')
                 else if \<not> allow_relative \<and> (request_has_ssl = response_has_ssl \<and> request_server = redirect_server')
                   then RelativeRedirect redirect_url
                 else if require_relative \<and> (request_has_ssl \<noteq> response_has_ssl \<or> request_server \<noteq> redirect_server')
                   then RelativeRedirect redirect_url
                 else RedirectTo redirect_url))))"

definition redirect_or_fail :: "urlparser \<Rightarrow> response \<Rightarrow> nat \<Rightarrow> bool \<Rightarrow> error + (string \<times> nat)" where
  "redirect_or_fail urlparse r redirects allow_redirects =
     (case get_redirect_url urlparse r False False of
        RelativeRedirect u \<Rightarrow> Inl RedirectError
      | Fails e \<Rightarrow> Inl e
      | RedirectTo redirect_url \<Rightarrow>
          if \<not> allow_redirects then Inl (TransportError ''Redirect not allowed but we were redirected'')
          else if redirects + 1 > MAX_REDIRECTS then Inl (TransportError ''Max redirect count exceeded'')
          else Inr (redirect_url, redirects + 1))"

subsection \<open>The request loop\<close>

text \<open>What \<^verbatim>\<open>session.post\<close> does in one iteration.\<close>

datatype post_result =
    Returns response
  | RaisesTLS string
  | RaisesConnection error
  | RaisesTokenExpired error
  | RaisesKeyError string
  | Raises error

text \<open>
  One iteration's inputs: the clock when the iteration starts and when \<open>back_off\<close> is
  called (\<open>now\<close>), the outcome of the POST, and the measured \<open>total_wait\<close>.
\<close>

record attempt =
  now :: real
  post :: post_result
  total_wait :: real

text \<open>
  The calls on sessions (\<open>renew_session\<close>, \<open>refresh_credentials\<close>, \<open>retire_session\<close>) are
  taken to return; of \<open>retire_session\<close> the state keeps the flag \<open>retired\<close>.

  The local variables of the loop, and counters of its calls: \<open>posts\<close> counts the calls
  of \<^verbatim>\<open>session.post\<close>, \<open>refreshes\<close> those of \<^verbatim>\<open>protocol.refresh_credentials\<close>, and
  \<open>back_off_calls\<close> lists, for every call of \<^verbatim>\<open>retry_policy.back_off\<close>, the value of \<open>wait\<close>
  before \<^verbatim>\<open>_retry_after\<close>, the response, and the delay passed to \<open>back_off\<close>. \<open>slept\<close> counts the
  iterations that slept in \<^verbatim>\<open>_back_off_if_needed\<close>.
\<close>

record loop_state =
  policy :: retry_policy
  cur_url :: string
  wait :: int
  retry :: nat
  redirects :: nat
  posts :: nat
  refreshes :: nat
  slept :: nat
  back_off_calls :: "(int \<times> response \<times> int) list"
  retired :: bool

definition back_off_if_needed :: "real option \<Rightarrow> real \<Rightarrow> bool" where
  "back_off_if_needed until_opt clock =
     (case until_opt of None \<Rightarrow> False | Some t \<Rightarrow> t - clock > 0)"

text \<open>
  The response the rest of the iteration works with, or the exception that leaves the
  loop.
\<close>

definition post_response :: "string \<Rightarrow> post_result \<Rightarrow> error + response" where
  "post_response u p =
     (case p of
        Returns r \<Rightarrow> Inr r
      | RaisesTLS msg \<Rightarrow> Inl (TransportError msg)
      | RaisesConnection e \<Rightarrow> Inr (DummyResponse u [(''TimeoutException'', HExc e)] 503)
      | RaisesTokenExpired e \<Rightarrow> Inr (DummyResponse u [(''TokenExpiredError'', HExc e)] 401)
      | RaisesKeyError k \<Rightarrow>
          if k \<noteq> ''www-authenticate'' then Inl KeyError
          else Inr (DummyResponse u [(''KeyError'', HExc KeyError)] 503)
      | Raises e \<Rightarrow> Inl e)"

text \<open>
  One pass through the body of the \<^verbatim>\<open>while True\<close> loop: it ends in \<^verbatim>\<open>continue\<close>, or
  leaves the loop with an exception (\<open>Inl\<close>) or, at \<^verbatim>\<open>break\<close>, with the response (\<open>Inr\<close>).
\<close>

datatype flow = Continue loop_state | Leave "error + response" loop_state

definition iteration ::
  "(string \<Rightarrow> int option) \<Rightarrow> urlparser \<Rightarrow> bool \<Rightarrow> loop_state \<Rightarrow> attempt \<Rightarrow> flow" where
  "iteration py_int urlparse allow_redirects s a =
     (case back_off_until (policy s) (now a) of (until_opt, p1) \<Rightarrow>
      let s1 = s\<lparr>policy := p1,
                 slept := (if back_off_if_needed until_opt (now a) then slept s + 1 else slept s),
                 posts := posts s + 1\<rparr>
      in (case post_response (cur_url s1) (post a) of
           Inl e \<Rightarrow> Leave (Inl e) s1
         | Inr r \<Rightarrow>
             if need_new_credentials r then Continue (s1\<lparr>refreshes := refreshes s1 + 1\<rparr>)
             else
               (case may_retry_on_error (policy s1) r (total_wait a) of
                  Inl e \<Rightarrow> Leave (Inl e) s1
                | Inr True \<Rightarrow>
                    (case retry_after py_int r (wait s1) of
                       Inl e \<Rightarrow> Leave (Inl e) s1
                     | Inr w \<Rightarrow>
                         (case back_off (policy s1) (now a) (Some w) of
                            Inl e \<Rightarrow> Leave (Inl e) (s1\<lparr>wait := w\<rparr>)
                          | Inr p2 \<Rightarrow>
                              Continue (s1\<lparr>policy := p2, wait := w * 2, retry := retry s1 + 1,
                                    back_off_calls := back_off_calls s1 @ [(wait s1, r, w)]\<rparr>)))
                | Inr False \<Rightarrow>
                    if status_code r \<in> {301, 302} then
                      (case redirect_or_fail urlparse r (redirects s1) allow_redirects of
                         Inl e \<Rightarrow> Leave (Inl e) s1
                       | Inr (u, n) \<Rightarrow> Continue (s1\<lparr>cur_url := u, redirects := n\<rparr>))
                    else Leave (Inr r) s1)))"

text \<open>
  The loop. Each iteration consumes one \<open>attempt\<close>. The result is the way the loop was
  left (\<open>None\<close> when it is still running after the last attempt) and the state then.
\<close>

fun request_loop ::
  "(string \<Rightarrow> int option) \<Rightarrow> urlparser \<Rightarrow> bool \<Rightarrow> loop_state \<Rightarrow> attempt list
     \<Rightarrow> (error + response) option \<times> loop_state" where
  "request_loop py_int urlparse allow_redirects s [] = (None, s)"
| "request_loop py_int urlparse allow_redirects s (a # rest) =
     (case iteration py_int urlparse allow_redirects s a of
        Continue s' \<Rightarrow> request_loop py_int urlparse allow_redirects s' rest
      | Leave res s' \<Rightarrow> (Some res, s'))"

text \<open>
  \<open>post_ratelimited\<close>: the loop from its initial state, then the status check. Every
  exception raised inside the loop, and a final status other than 200 (or a 500 with an
  XML body), retires the session.
\<close>

definition init_state :: "retry_policy \<Rightarrow> string \<Rightarrow> loop_state" where
  "init_state p u =
     \<lparr>policy = p, cur_url = u, wait = RETRY_WAIT, retry = 0, redirects = 0, posts = 0,
      refreshes = 0, slept = 0, back_off_calls = [], retired = False\<rparr>"

definition post_ratelimited ::
  "(string \<Rightarrow> int option) \<Rightarrow> urlparser \<Rightarrow> retry_policy \<Rightarrow> string \<Rightarrow> bool \<Rightarrow> attempt list
     \<Rightarrow> (error + response) option \<times> loop_state" where
  "post_ratelimited py_int urlparse p u allow_redirects env =
     (case request_loop py_int urlparse allow_redirects (init_state p u) env of
        (None, s) \<Rightarrow> (None, s)
      | (Some (Inl e), s) \<Rightarrow> (Some (Inl e), s\<lparr>retired := True\<rparr>)
      | (Some (Inr r), s) \<Rightarrow>
          if status_code r = 500 \<and> content r \<noteq> [] \<and> is_xml (content r) then (Some (Inr r), s)
          else if status_code r \<noteq> 200
            then (Some (Inl (raise_response_errors (policy s) r)), s\<lparr>retired := True\<rparr>)
          else (Some (Inr r), s))"

subsection \<open>The back-off schedule, as the specification words it\<close>

text \<open>
  The integer value of a response's Retry-After header, when it has one.
\<close>

definition header_int :: "(string \<Rightarrow> int option) \<Rightarrow> response \<Rightarrow> int option" where
  "header_int py_int r =
     (case map_of (headers r) ''Retry-After'' of Some (HStr s) \<Rightarrow> py_int s | _ \<Rightarrow> None)"

text \<open>
  The delay used for a retry: the current delay, replaced by the header's value when that
  exceeds it.
\<close>

definition spec_delay :: "(string \<Rightarrow> int option) \<Rightarrow> response \<Rightarrow> int \<Rightarrow> int" where
  "spec_delay py_int r w = (case header_int py_int r of Some n \<Rightarrow> if n > w then n else w | None \<Rightarrow> w)"

text \<open>
  A list of \<open>back_off\<close> calls follows the schedule from the delay \<open>w\<close>: each call is made
  at the current delay, passes the delay the specification names, which is not smaller
  than the current one, and the next call starts from twice the delay passed.
\<close>

fun backoff_chain :: "(string \<Rightarrow> int option) \<Rightarrow> int \<Rightarrow> (int \<times> response \<times> int) list \<Rightarrow> bool" where
  "backoff_chain py_int w [] = True"
| "backoff_chain py_int w ((w0, r, d) # rest) =
     (w0 = w \<and> d = spec_delay py_int r w \<and> w \<le> d \<and> backoff_chain py_int (2 * d) rest)"

fun chain_end :: "int \<Rightarrow> (int \<times> response \<times> int) list \<Rightarrow> int" where
  "chain_end w [] = w"
| "chain_end w ((w0, r, d) # rest) = chain_end (2 * d) rest"

text \<open>A POST that ends in a credential refresh: the OAuth token has expired.\<close>

definition token_expired :: "post_result \<Rightarrow> bool" where
  "token_expired p =
     (case p of Returns r \<Rightarrow> need_new_credentials r | RaisesTokenExpired e \<Rightarrow> True | _ \<Rightarrow> False)"

subsection \<open>Invariants of the request loop\<close>

text \<open>
  Between iterations the \<open>back_off\<close> calls made so far follow the schedule from
  \<open>RETRY_WAIT\<close>, and the local \<open>wait\<close> is the delay the next call starts from.
\<close>

definition chain_inv :: "(string \<Rightarrow> int option) \<Rightarrow> loop_state \<Rightarrow> bool" where
  "chain_inv py_int s \<longleftrightarrow>
     backoff_chain py_int RETRY_WAIT (back_off_calls s)
     \<and> chain_end RETRY_WAIT (back_off_calls s) = wait s \<and> 0 \<le> wait s"

text \<open>
  Between iterations under \<open>FailFast\<close>: no \<open>back_off\<close> call, no sleep, no retry, and every
  POST so far ended in a credential refresh or a followed redirect.
\<close>

definition ff_inv :: "bool \<Rightarrow> loop_state \<Rightarrow> bool" where
  "ff_inv allow s \<longleftrightarrow>
     policy s = FailFast \<and> back_off_calls s = [] \<and> slept s = 0 \<and> retry s = 0
     \<and> posts s = refreshes s + redirects s \<and> redirects s \<le> MAX_REDIRECTS
     \<and> (\<not> allow \<longrightarrow> redirects s = 0)"

subsection \<open>Example inputs\<close>

definition digits :: "string \<Rightarrow> int option" where
  "digits s = (if s = ''30'' then Some 30 else None)"

definition no_urls :: urlparser where
  "no_urls u = ([], [], [])"

definition ews_url :: string where
  "ews_url = ''https://example.com/EWS/Exchange.asmx''"

definition busy :: "(string \<times> hval) list \<Rightarrow> response" where
  "busy hs = \<lparr>status_code = 503, headers = hs, content = [], url = ews_url, history = []\<rparr>"

definition ok :: response where
  "ok = \<lparr>status_code = 200, headers = [], content = ''<?xml'', url = ews_url, history = []\<rparr>"

definition busy_run :: "attempt list" where
  "busy_run =
     [\<lparr>now = 0, post = Returns (busy [(''Retry-After'', HStr ''30'')]), total_wait = 1\<rparr>,
      \<lparr>now = 31, post = Returns (busy []), total_wait = 32\<rparr>,
      \<lparr>now = 92, post = Returns ok, total_wait = 93\<rparr>]"

definition expired_run :: "attempt list" where
  "expired_run =
     [\<lparr>now = 0, post = RaisesTokenExpired (OtherError ''TokenExpiredError''), total_wait = 1\<rparr>,
      \<lparr>now = 2, post = Returns ok, total_wait = 2\<rparr>]"

definition ok_run :: "attempt list" where
  "ok_run = [\<lparr>now = 0, post = Returns ok, total_wait = 1\<rparr>]"

section \<open>protocol.py: the session pool of BaseProtocol\<close>

text \<open>
  A session, with the two attributes \<open>create_session\<close> adds. The pool is a LifoQueue: the
  head of the list is the session \<^verbatim>\<open>get\<close> returns.
\<close>

record session =
  session_id :: nat
  usage_count :: nat

record base_protocol =
  max_connections :: "int option"
  session_pool_size :: int
  session_pool_maxsize :: int
  session_pool :: "session list"

definition SESSION_POOLSIZE :: int where
  "SESSION_POOLSIZE = 1"

text \<open>
  \<^verbatim>\<open>config.max_connections or self.SESSION_POOLSIZE\<close>: None and 0 are both falsy.
\<close>

definition pool_maxsize :: "int option \<Rightarrow> int" where
  "pool_maxsize mc = (case mc of None \<Rightarrow> SESSION_POOLSIZE | Some m \<Rightarrow> if m = 0 then SESSION_POOLSIZE else m)"

definition BaseProtocol :: "int option \<Rightarrow> base_protocol" where
  "BaseProtocol mc =
     \<lparr>max_connections = mc, session_pool_size = 0, session_pool_maxsize = pool_maxsize mc,
      session_pool = []\<rparr>"

text \<open>
  \<open>increase_poolsize\<close>. \<open>created\<close> is what \<open>create_session\<close> does when it is called: the new
  session, or the exception it raises. The test is made twice, outside and inside the
  lock.
\<close>

definition increase_poolsize :: "base_protocol \<Rightarrow> error + session \<Rightarrow> error + base_protocol" where
  "increase_poolsize p created =
     (if session_pool_size p \<ge> session_pool_maxsize p then Inl SessionPoolMaxSizeReached
      else if session_pool_size p \<ge> session_pool_maxsize p then Inr p
      else (case created of
              Inl e \<Rightarrow> Inl e
            | Inr s \<Rightarrow> Inr (p\<lparr>session_pool := s # session_pool p,
                               session_pool_size := session_pool_size p + 1\<rparr>)))"

text \<open>
  \<open>get_session\<close>, as \<open>decrease_poolsize\<close> calls it, holding the pool's lock: a session in
  the queue is taken at once. With an empty queue the call does not return (\<open>None\<close>):
  \<open>increase_poolsize\<close> either raises SessionPoolMaxSizeReached, which is suppressed,
  or waits for the lock its caller holds, and the queue is then waited for without end.
\<close>

definition get_session :: "base_protocol \<Rightarrow> (session \<times> base_protocol) option" where
  "get_session p =
     (case session_pool p of
        [] \<Rightarrow> None
      | s # rest \<Rightarrow> Some (s\<lparr>usage_count := usage_count s + 1\<rparr>, p\<lparr>session_pool := rest\<rparr>))"

definition decrease_poolsize :: "base_protocol \<Rightarrow> (error + base_protocol) option" where
  "decrease_poolsize p =
     (if session_pool_size p \<le> 1 then Some (Inl SessionPoolMinSizeReached)
      else if session_pool_size p \<le> 1 then Some (Inr p)
      else (case get_session p of
              None \<Rightarrow> None
            | Some (s, p') \<Rightarrow> Some (Inr (p'\<lparr>session_pool_size := session_pool_size p' - 1\<rparr>))))"

text \<open>
  A sequence of calls. A call that raises leaves the protocol as it is, and the next
  call is made; a call that does not return ends the sequence (\<open>None\<close>).
\<close>

datatype pool_call = Increase "error + session" | Decrease

fun pool_calls :: "base_protocol \<Rightarrow> pool_call list \<Rightarrow> base_protocol option" where
  "pool_calls p [] = Some p"
| "pool_calls p (Increase created # cs) =
     (case increase_poolsize p created of
        Inl e \<Rightarrow> pool_calls p cs
      | Inr p' \<Rightarrow> pool_calls p' cs)"
| "pool_calls p (Decrease # cs) =
     (case decrease_poolsize p of
        None \<Rightarrow> None
      | Some (Inl e) \<Rightarrow> pool_calls p cs
      | Some (Inr p') \<Rightarrow> pool_calls p' cs)"

text \<open>The invariant of the pool: the size is in range and counts the sessions in the queue.\<close>

definition pool_inv :: "base_protocol \<Rightarrow> bool" where
  "pool_inv p \<longleftrightarrow>
     0 \<le> session_pool_size p \<and> session_pool_size p \<le> session_pool_maxsize p
     \<and> int (length (session_pool p)) = session_pool_size p"

definition three_up_two_down :: "pool_call list" where
  "three_up_two_down =
     [Increase (Inr \<lparr>session_id = 10001, usage_count = 0\<rparr>),
      Increase (Inr \<lparr>session_id = 10002, usage_count = 0\<rparr>),
      Increase (Inr \<lparr>session_id = 10003, usage_count = 0\<rparr>),
      Decrease, Decrease]"

section \<open>fields.py: Field\<close>

text \<open>
  Python values a field can hold: None, a str, a bool, an int, a list, or an object of
  another class. Of such an object the model keeps the class name and what its \<open>clean\<close>
  method does when it is called (\<open>None\<close>: the object has no attribute \<open>clean\<close>;
  \<open>Some None\<close>: it returns; \<open>Some (Some e)\<close>: it raises \<open>e\<close>).
\<close>

datatype pyval =
    PNone
  | PStr string
  | PBool bool
  | PInt int
  | PList "pyval list"
  | PObj string "error option option"

text \<open>The classes a field names as its \<open>value_cls\<close>.\<close>

datatype cls = CStr | CBool | CInt | CObj string

text \<open>\<^verbatim>\<open>isinstance(v, value_cls)\<close>; bool is a subclass of int.\<close>

fun isinstance :: "pyval \<Rightarrow> cls \<Rightarrow> bool" where
  "isinstance (PStr s) CStr = True"
| "isinstance (PBool b) CBool = True"
| "isinstance (PBool b) CInt = True"
| "isinstance (PInt i) CInt = True"
| "isinstance (PObj c m) (CObj c') = (c = c')"
| "isinstance v c = False"

text \<open>\<open>is_iterable\<close> with generators not allowed: a tuple, list or set.\<close>

fun is_iterable :: "pyval \<Rightarrow> bool" where
  "is_iterable (PList vs) = True"
| "is_iterable v = False"

text \<open>
  \<open>version.py\<close> is not among the sources. A \<open>Build\<close> is a parameter of the model: a type
  \<open>'b\<close> whose comparison operators are a linear order (the source compares builds with
  \<^verbatim>\<open><\<close> and \<^verbatim>\<open>>=\<close>), and whose instances are all truthy, as instances of a class with no
  \<^verbatim>\<open>__bool__\<close> are. A \<open>Version\<close> has a build and an API version, and is truthy as well.
\<close>

record 'b version =
  build :: 'b
  api_version :: string

text \<open>The attributes \<open>Field.__init__\<close> sets, and the class attributes \<open>value_cls\<close> and \<open>is_list\<close>.\<close>

record 'b field =
  name :: string
  default :: pyval
  is_required :: bool
  is_required_after_save :: bool
  is_read_only :: bool
  is_read_only_after_send :: bool
  is_searchable :: bool
  is_attribute :: bool
  supported_from :: "'b option"
  deprecated_from :: "'b option"
  value_cls :: "cls option"
  is_list :: bool

definition Field ::
  "string \<Rightarrow> bool \<Rightarrow> bool \<Rightarrow> bool \<Rightarrow> bool \<Rightarrow> bool \<Rightarrow> bool \<Rightarrow> pyval \<Rightarrow> 'b option \<Rightarrow> 'b option
     \<Rightarrow> cls option \<Rightarrow> bool \<Rightarrow> 'b field" where
  "Field nm required required_after_save read_only read_only_after_send searchable attribute dflt
         since until_build vcls lst =
     \<lparr>name = nm, default = dflt, is_required = required,
      is_required_after_save = (required \<or> required_after_save),
      is_read_only = read_only, is_read_only_after_send = (read_only \<or> read_only_after_send),
      is_searchable = searchable, is_attribute = attribute,
      supported_from = since, deprecated_from = until_build, value_cls = vcls, is_list = lst\<rparr>"

definition supports_version :: "('b::linorder, 'x) field_scheme \<Rightarrow> 'b version \<Rightarrow> bool" where
  "supports_version f v =
     (if (case supported_from f of None \<Rightarrow> False | Some b \<Rightarrow> build v < b) then False
      else if (case deprecated_from f of None \<Rightarrow> False | Some b \<Rightarrow> build v \<ge> b) then False
      else True)"

text \<open>
  The type check and the nested \<open>clean\<close> of one value: \<^verbatim>\<open>isinstance\<close> raises TypeError
  when \<open>value_cls\<close> is None, as it is on the base class.
\<close>

definition clean_value :: "cls option \<Rightarrow> pyval \<Rightarrow> error option" where
  "clean_value vcls v =
     (case vcls of
        None \<Rightarrow> Some TypeError
      | Some c \<Rightarrow>
          if \<not> isinstance v c then Some TypeError
          else (case v of PObj nm (Some (Some e)) \<Rightarrow> Some e | _ \<Rightarrow> None))"

fun clean_values :: "cls option \<Rightarrow> pyval list \<Rightarrow> error option" where
  "clean_values vcls [] = None"
| "clean_values vcls (v # vs) =
     (case clean_value vcls v of Some e \<Rightarrow> Some e | None \<Rightarrow> clean_values vcls vs)"

definition clean :: "('b::linorder, 'x) field_scheme \<Rightarrow> pyval \<Rightarrow> 'b version option \<Rightarrow> error + pyval" where
  "clean f val ver =
     (if (case ver of None \<Rightarrow> False | Some v \<Rightarrow> \<not> supports_version f v) then Inl InvalidFieldForVersion
      else if val = PNone then
        (if is_required f \<and> default f = PNone then Inl ValueError else Inr (default f))
      else if is_list f then
        (case val of
           PList vs \<Rightarrow> (case clean_values (value_cls f) vs of Some e \<Rightarrow> Inl e | None \<Rightarrow> Inr val)
         | _ \<Rightarrow> Inl TypeError)
      else (case clean_value (value_cls f) val of Some e \<Rightarrow> Inl e | None \<Rightarrow> Inr val))"

text \<open>A build as the four numbers \<^verbatim>\<open>Build(15, 0, 913, 9)\<close> gives, compared in that order.\<close>

type_synonym build4 = "nat \<times> nat \<times> nat \<times> nat"

definition subject :: "build4 field" where
  "subject = Field ''subject'' True False False False True False PNone (Some (15, 0, 913, 9)) None (Some CStr) False"

section \<open>protocol.py: CachingProtocol\<close>

text \<open>
  A Configuration, with the attributes the protocol cache and the session pool read.
  Credentials are a parameter \<open>'c\<close> of the model; equality on \<open>'c\<close> is the credentials'
  \<^verbatim>\<open>__eq__\<close>, with which \<^verbatim>\<open>__hash__\<close> agrees.
\<close>

record 'c configuration =
  service_endpoint :: "string option"
  credentials :: "'c option"
  config_max_connections :: "int option"

text \<open>
  The keyword arguments of a construction \<^verbatim>\<open>Protocol(config=...)\<close>: the value passed as
  \<open>config\<close> is a Configuration or an object of another type, named by its class;
  \<open>None\<close> is a call with no \<open>config\<close> keyword.
\<close>

datatype 'c config_arg = IsConfiguration "'c configuration" | NotConfiguration string

text \<open>
  A Protocol instance: its identity (the number of the constructor run that made it) and
  the configuration it was constructed with.
\<close>

record 'c protocol =
  ident :: nat
  config :: "'c configuration"

datatype 'c cache_entry = Instance "'c protocol" | Failure error

text \<open>
  The class attribute \<open>_protocol_cache\<close>, a dict from keys to pairs of an entry and a time,
  and a counter of the constructor runs (\<^verbatim>\<open>super().__call__\<close>).
\<close>

record 'c cache_state =
  protocol_cache :: "(string option \<times> 'c option) \<Rightarrow> ('c cache_entry \<times> real) option"
  constructions :: nat

definition cache_key :: "'c configuration \<Rightarrow> string option \<times> 'c option" where
  "cache_key cfg = (service_endpoint cfg, credentials cfg)"

text \<open>What the constructor does when it runs: it returns the new instance, or raises.\<close>

datatype construction = Constructs | Raises error

text \<open>
  \<open>errors.py\<close> is not among the sources: which exceptions are instances of a subclass of
  TransportError is a parameter, \<open>sub\<close>. An instance of TransportError itself always is
  caught by \<^verbatim>\<open>except TransportError\<close>.
\<close>

definition is_transport_error :: "(error \<Rightarrow> bool) \<Rightarrow> error \<Rightarrow> bool" where
  "is_transport_error sub e = (case e of TransportError msg \<Rightarrow> True | _ \<Rightarrow> sub e)"

text \<open>
  \<open>CachingProtocol.__call__\<close>. The cache is read twice, before and after the lock is
  taken. \<open>made\<close> is what the constructor does if it runs, \<open>clock\<close> the time then.
\<close>

definition cached :: "'c cache_state \<Rightarrow> string option \<times> 'c option \<Rightarrow> (error + 'c protocol) option" where
  "cached st k =
     (case protocol_cache st k of
        None \<Rightarrow> None
      | Some (Instance p, t) \<Rightarrow> Some (Inr p)
      | Some (Failure e, t) \<Rightarrow> Some (Inl e))"

definition protocol_call ::
  "(error \<Rightarrow> bool) \<Rightarrow> 'c cache_state \<Rightarrow> 'c config_arg option \<Rightarrow> construction \<Rightarrow> real
     \<Rightarrow> (error + 'c protocol) \<times> 'c cache_state" where
  "protocol_call sub st arg made clock =
     (case arg of
        None \<Rightarrow> (Inl KeyError, st)
      | Some (NotConfiguration c) \<Rightarrow> (Inl InvalidTypeError, st)
      | Some (IsConfiguration cfg) \<Rightarrow>
          if service_endpoint cfg = None \<or> service_endpoint cfg = Some [] then (Inl AttributeError, st)
          else
            let k = cache_key cfg in
            (case cached st k of
               Some r \<Rightarrow> (r, st)
             | None \<Rightarrow>
                 (case cached st k of
                    Some r \<Rightarrow> (r, st)
                  | None \<Rightarrow>
                      (case made of
                         Raises e \<Rightarrow>
                           if is_transport_error sub e then
                             (Inl e, st\<lparr>protocol_cache := (protocol_cache st)(k \<mapsto> (Failure e, clock)),
                                        constructions := constructions st + 1\<rparr>)
                           else (Inl e, st\<lparr>constructions := constructions st + 1\<rparr>)
                       | Constructs \<Rightarrow>
                           let p = \<lparr>ident = constructions st, config = cfg\<rparr> in
                           (Inr p, st\<lparr>protocol_cache := (protocol_cache st)(k \<mapsto> (Instance p, clock)),
                                      constructions := constructions st + 1\<rparr>)))))"

text \<open>\<open>clear_cache\<close>: the sessions of every cached protocol are closed, and the dict emptied.\<close>

definition clear_cache :: "'c cache_state \<Rightarrow> 'c cache_state" where
  "clear_cache st = st\<lparr>protocol_cache := Map.empty\<rparr>"

text \<open>A sequence of constructions: each with its argument, constructor outcome and time.\<close>

fun protocol_calls ::
  "(error \<Rightarrow> bool) \<Rightarrow> 'c cache_state \<Rightarrow> ('c config_arg option \<times> construction \<times> real) list \<Rightarrow> 'c cache_state" where
  "protocol_calls sub st [] = st"
| "protocol_calls sub st ((arg, made, clock) # cs) =
     protocol_calls sub (snd (protocol_call sub st arg made clock)) cs"

definition empty_cache :: "'c cache_state" where
  "empty_cache = \<lparr>protocol_cache = Map.empty, constructions = 0\<rparr>"

subsection \<open>Example constructions\<close>

definition no_subclasses :: "error \<Rightarrow> bool" where
  "no_subclasses e = False"

definition alice_cfg :: "string configuration" where
  "alice_cfg = \<lparr>service_endpoint = Some ews_url, credentials = Some ''alice'', config_max_connections = None\<rparr>"

definition alice_cfg_again :: "string configuration" where
  "alice_cfg_again = \<lparr>service_endpoint = Some ews_url, credentials = Some ''alice'', config_max_connections = Some 4\<rparr>"

definition bob_cfg :: "string configuration" where
  "bob_cfg = \<lparr>service_endpoint = Some ews_url, credentials = Some ''bob'', config_max_connections = None\<rparr>"

definition bogus :: error where
  "bogus = TransportError ''bogus endpoint''"

section \<open>services/common.py: EWSPagingService._paged_call\<close>

text \<open>
  What \<open>_get_page\<close> returns for one folder: an exception instance, None (a page with no
  items), or the paging element, of which the model keeps the elements of its container
  (\<open>None\<close> when the element has no container). \<open>'e\<close> is the type of the elements.
\<close>

datatype 'e page = PageException error | NoPage | Page "'e list option"

text \<open>What the generator yields: an element, or the exception instance of a folder.\<close>

datatype 'e yielded = Elem 'e | Exc error

text \<open>
  How the generator ends: it returns, it raises, or the model has no server response
  left for the request it makes.
\<close>

datatype ending = Done | Raised error | NoResponse

text \<open>\<^verbatim>\<open>max_items and total_item_count >= max_items\<close>: None and 0 are falsy.\<close>

definition reached :: "int option \<Rightarrow> nat \<Rightarrow> bool" where
  "reached max_items total_item_count =
     (case max_items of None \<Rightarrow> False | Some m \<Rightarrow> m \<noteq> 0 \<and> int total_item_count \<ge> m)"

text \<open>
  \<open>_get_elems_from_page\<close>, for a page that has a container. The generator tests its own
  parameter \<open>total_item_count\<close>, the count when the page was entered.
\<close>

fun get_elems_from_page :: "'e list \<Rightarrow> int option \<Rightarrow> nat \<Rightarrow> 'e list" where
  "get_elems_from_page [] max_items total_item_count = []"
| "get_elems_from_page (e # es) max_items total_item_count =
     (if reached max_items total_item_count then []
      else e # get_elems_from_page es max_items total_item_count)"

text \<open>
  The dict \<open>paging_infos\<close>: for every folder still paged, \<open>item_count\<close> and \<open>next_offset\<close>,
  in insertion order. A folder named twice has one entry.
\<close>

type_synonym 'f paging_infos = "('f \<times> nat \<times> int option) list"

fun init_infos :: "'f list \<Rightarrow> 'f paging_infos \<Rightarrow> 'f paging_infos" where
  "init_infos [] acc = acc"
| "init_infos (f # fs) acc =
     init_infos fs (if f \<in> fst ` set acc then map (\<lambda>(g, i). if g = f then (g, 0, None) else (g, i)) acc
                    else acc @ [(f, 0, None)])"

definition set_next_offset :: "'f \<Rightarrow> int option \<Rightarrow> 'f paging_infos \<Rightarrow> 'f paging_infos" where
  "set_next_offset f off infos = map (\<lambda>(g, n, o'). if g = f then (g, n, off) else (g, n, o')) infos"

definition add_item_count :: "'f \<Rightarrow> nat \<Rightarrow> 'f paging_infos \<Rightarrow> 'f paging_infos" where
  "add_item_count f k infos = map (\<lambda>(g, n, o'). if g = f then (g, n + k, o') else (g, n, o')) infos"

definition del_info :: "'f \<Rightarrow> 'f paging_infos \<Rightarrow> 'f paging_infos" where
  "del_info f infos = filter (\<lambda>(g, i). g \<noteq> f) infos"

text \<open>\<^verbatim>\<open>not paging_info["next_offset"]\<close>: None and 0 are falsy.\<close>

definition no_next :: "int option \<Rightarrow> bool" where
  "no_next off = (off = None \<or> off = Some 0)"

text \<open>
  The loop over \<^verbatim>\<open>zip(pages, list(paging_infos.items()))\<close>. The state is the dict, the
  total count and the elements yielded so far. The result tells how the loop was left:
  by an exception (container missing), by \<^verbatim>\<open>break\<close>, or at its end.
\<close>

datatype leaving = LoopEnd | Break | Raise error

fun page_loop ::
  "int option \<Rightarrow> (('e page \<times> int option) \<times> 'f) list \<Rightarrow> 'f paging_infos \<Rightarrow> nat \<Rightarrow> 'e yielded list
     \<Rightarrow> leaving \<times> 'f paging_infos \<times> nat \<times> 'e yielded list" where
  "page_loop max_items [] infos total_item_count out = (LoopEnd, infos, total_item_count, out)"
| "page_loop max_items (((page, next_offset), f) # rest) infos total_item_count out =
     (let infos1 = set_next_offset f next_offset infos in
      case page of
        PageException e \<Rightarrow> page_loop max_items rest (del_info f infos1) total_item_count (out @ [Exc e])
      | NoPage \<Rightarrow>
          if no_next next_offset then page_loop max_items rest (del_info f infos1) total_item_count out
          else page_loop max_items rest infos1 total_item_count out
      | Page None \<Rightarrow> (Raise MalformedResponseError, infos1, total_item_count, out)
      | Page (Some es) \<Rightarrow>
          (let elems = get_elems_from_page es max_items total_item_count;
               infos2 = add_item_count f (length elems) infos1;
               count' = total_item_count + length elems;
               out' = out @ map Elem elems
           in if reached max_items count' then (Break, infos2, count', out')
              else if no_next next_offset then page_loop max_items rest (del_info f infos2) count' out'
              else page_loop max_items rest infos2 count' out'))"

text \<open>\<open>_get_next_offset\<close>: the lowest of the offsets that are not None.\<close>

definition get_next_offset :: "'f paging_infos \<Rightarrow> int option" where
  "get_next_offset infos =
     (case List.map_filter (\<lambda>(g, n, off). off) infos of
        [] \<Rightarrow> None
      | o1 # os \<Rightarrow> Some (fold min os o1))"

text \<open>
  The \<^verbatim>\<open>while True\<close> loop. Each pass makes one request through \<open>_get_pages\<close>, which the
  list \<open>requests\<close> records with its offset, its folders and the number of elements
  yielded before it; \<open>responses\<close> holds, for each request in turn, what \<open>_get_elements\<close>
  gives: an exception, or the list of pages.
\<close>

fun paging_loop ::
  "int option \<Rightarrow> 'f paging_infos \<Rightarrow> int \<Rightarrow> nat \<Rightarrow> 'e yielded list \<Rightarrow> (int \<times> 'f list \<times> nat) list
     \<Rightarrow> (error + ('e page \<times> int option) list) list
     \<Rightarrow> 'e yielded list \<times> (int \<times> 'f list \<times> nat) list \<times> ending" where
  "paging_loop max_items infos offset total_item_count out requests responses =
     (if infos = [] then (out, requests, Done)
      else
        (case responses of
           [] \<Rightarrow> (out, requests, NoResponse)
         | response # later \<Rightarrow>
             (let requests' = requests @ [(offset, map fst infos, total_item_count)] in
              case response of
                Inl e \<Rightarrow> (out, requests', Raised e)
              | Inr pages \<Rightarrow>
                  if length pages \<noteq> length infos then (out, requests', Raised MalformedResponseError)
                  else
                    (case page_loop max_items (zip pages (map fst infos)) infos total_item_count out of
                       (Raise e, infos', count', out') \<Rightarrow> (out', requests', Raised e)
                     | (how, infos', count', out') \<Rightarrow>
                         if reached max_items count' then (out', requests', Done)
                         else
                           (case get_next_offset infos' of
                              None \<Rightarrow> (out', requests', Done)
                            | Some offset' \<Rightarrow>
                                paging_loop max_items infos' offset' count' out' requests' later)))))"

declare paging_loop.simps [simp del]

definition paged_call ::
  "int option \<Rightarrow> 'f list \<Rightarrow> int \<Rightarrow> (error + ('e page \<times> int option) list) list
     \<Rightarrow> 'e yielded list \<times> (int \<times> 'f list \<times> nat) list \<times> ending" where
  "paged_call max_items folders offset responses =
     paging_loop max_items (init_infos folders []) offset 0 [] [] responses"

text \<open>The elements among what was yielded (the exceptions left out).\<close>

definition elements :: "'e yielded list \<Rightarrow> 'e list" where
  "elements out = List.map_filter (\<lambda>y. case y of Elem e \<Rightarrow> Some e | Exc x \<Rightarrow> None) out"

section \<open>queryset.py: QuerySet\<close>

text \<open>
  \<open>restriction.py\<close> is not among the sources. The class \<open>Q\<close> is a parameter of the model: a
  type \<open>'q\<close> of restrictions with the operations the chaining methods use, where \<open>'a\<close> is
  the type of the arguments \<^verbatim>\<open>(*args, **kwargs)\<close> of a filter.
\<close>

record ('q, 'a) q_ops =
  Q_new :: "'a \<Rightarrow> error + 'q"
  Q_all :: 'q
  Q_never :: 'q
  q_and :: "'q \<Rightarrow> 'q \<Rightarrow> 'q"
  q_invert :: "'q \<Rightarrow> 'q"

datatype request_type = ITEM | PERSONA

datatype return_format = VALUES | VALUES_LIST | FLAT | NONE

text \<open>A FieldOrder: a field path (of a type \<open>'p\<close>) and the flag \<open>reverse\<close>.\<close>

record 'p field_order =
  field_path :: 'p
  reverse :: bool

text \<open>
  The attributes of a QuerySet: those \<open>__init__\<close> sets, and no method of the class sets
  another one. \<open>'fc\<close> is the type of folder collections, \<open>'cv\<close> of calendar views.
\<close>

record ('fc, 'q, 'p, 'cv) queryset =
  folder_collection :: 'fc
  request_type :: request_type
  q :: 'q
  only_fields :: "'p list option"
  order_fields :: "'p field_order list option"
  return_format :: return_format
  calendar_view :: "'cv option"
  page_size :: "int option"
  chunk_size :: "int option"
  max_items :: "int option"
  offset :: int
  depth :: "string option"

text \<open>
  QuerySet objects live in a store: the list of the objects created so far, an object's
  identity being its index. Creating an object appends it.
\<close>

type_synonym ('fc, 'q, 'p, 'cv) store = "('fc, 'q, 'p, 'cv) queryset list"

definition QuerySet :: "('q, 'a) q_ops \<Rightarrow> 'fc \<Rightarrow> request_type \<Rightarrow> ('fc, 'q, 'p, 'cv) queryset" where
  "QuerySet ops fc rt =
     \<lparr>folder_collection = fc, request_type = rt, q = Q_all ops, only_fields = None,
      order_fields = None, return_format = NONE, calendar_view = None, page_size = None,
      chunk_size = None, max_items = None, offset = 0, depth = None\<rparr>"

text \<open>
  \<open>_copy_self\<close>: a new object of the same folder collection and request type, to which
  every other attribute is copied; \<open>q\<close> and \<open>order_fields\<close> are deep copies, equal values
  that share nothing with the original's.
\<close>

definition copy_self ::
  "('q, 'a) q_ops \<Rightarrow> ('fc, 'q, 'p, 'cv) store \<Rightarrow> nat \<Rightarrow> nat \<times> ('fc, 'q, 'p, 'cv) store" where
  "copy_self ops h self =
     (let this = h ! self;
          new_qs = QuerySet ops (folder_collection this) (request_type this);
          new_qs = new_qs\<lparr>q := q this, only_fields := only_fields this,
                     order_fields := (case order_fields this of None \<Rightarrow> None | Some fs \<Rightarrow> Some fs),
                     return_format := return_format this, calendar_view := calendar_view this,
                     page_size := page_size this, chunk_size := chunk_size this,
                     max_items := max_items this, offset := offset this, depth := depth this\<rparr>
      in (length h, h @ [new_qs]))"

text \<open>
  \<open>_get_field_path\<close> and \<open>_get_field_order\<close> look a field path up in the folders of the
  collection (or on Persona); the lookup is a parameter. Which exceptions derive from
  ValueError is a parameter too, \<open>errors.py\<close> not being among the sources; InvalidField
  and InvalidFieldForVersion, of \<open>fields.py\<close>, do.
\<close>

record ('fc, 'p) lookups =
  get_field_path :: "'fc \<Rightarrow> request_type \<Rightarrow> string \<Rightarrow> error + 'p"
  get_field_order :: "'fc \<Rightarrow> request_type \<Rightarrow> string \<Rightarrow> error + 'p field_order"
  other_value_errors :: "error \<Rightarrow> bool"

definition is_value_error :: "('fc, 'p) lookups \<Rightarrow> error \<Rightarrow> bool" where
  "is_value_error lk e =
     (e = ValueError \<or> e = InvalidField \<or> e = InvalidFieldForVersion \<or> other_value_errors lk e)"

text \<open>\<^verbatim>\<open>tuple(f(arg) for arg in args)\<close>: the first exception ends the evaluation.\<close>

fun tuple_of :: "('x \<Rightarrow> error + 'y) \<Rightarrow> 'x list \<Rightarrow> error + 'y list" where
  "tuple_of f [] = Inr []"
| "tuple_of f (x # xs) =
     (case f x of
        Inl e \<Rightarrow> Inl e
      | Inr y \<Rightarrow> (case tuple_of f xs of Inl e \<Rightarrow> Inl e | Inr ys \<Rightarrow> Inr (y # ys)))"

text \<open>
  The chaining methods: the store and the receiver's identity in, the returned
  object's identity (or the exception raised) and the store out.
\<close>

definition qs_all ::
  "('q, 'a) q_ops \<Rightarrow> ('fc, 'q, 'p, 'cv) store \<Rightarrow> nat \<Rightarrow> (error + nat) \<times> ('fc, 'q, 'p, 'cv) store" where
  "qs_all ops h self = (case copy_self ops h self of (new_qs, h1) \<Rightarrow> (Inr new_qs, h1))"

definition qs_none ::
  "('q, 'a) q_ops \<Rightarrow> ('fc, 'q, 'p, 'cv) store \<Rightarrow> nat \<Rightarrow> (error + nat) \<times> ('fc, 'q, 'p, 'cv) store" where
  "qs_none ops h self =
     (case copy_self ops h self of (new_qs, h1) \<Rightarrow>
        (Inr new_qs, h1[new_qs := (h1 ! new_qs)\<lparr>q := Q_never ops\<rparr>]))"

definition qs_filter ::
  "('q, 'a) q_ops \<Rightarrow> ('fc, 'q, 'p, 'cv) store \<Rightarrow> nat \<Rightarrow> 'a
     \<Rightarrow> (error + nat) \<times> ('fc, 'q, 'p, 'cv) store" where
  "qs_filter ops h self args =
     (case copy_self ops h self of (new_qs, h1) \<Rightarrow>
        (case Q_new ops args of
           Inl e \<Rightarrow> (Inl e, h1)
         | Inr q' \<Rightarrow> (Inr new_qs, h1[new_qs := (h1 ! new_qs)\<lparr>q := q_and ops (q (h1 ! new_qs)) q'\<rparr>])))"

definition qs_exclude ::
  "('q, 'a) q_ops \<Rightarrow> ('fc, 'q, 'p, 'cv) store \<Rightarrow> nat \<Rightarrow> 'a
     \<Rightarrow> (error + nat) \<times> ('fc, 'q, 'p, 'cv) store" where
  "qs_exclude ops h self args =
     (case copy_self ops h self of (new_qs, h1) \<Rightarrow>
        (case Q_new ops args of
           Inl e \<Rightarrow> (Inl e, h1)
         | Inr q' \<Rightarrow>
             (Inr new_qs,
              h1[new_qs := (h1 ! new_qs)\<lparr>q := q_and ops (q (h1 ! new_qs)) (q_invert ops q')\<rparr>])))"

definition qs_only ::
  "('q, 'a) q_ops \<Rightarrow> ('fc, 'p) lookups \<Rightarrow> ('fc, 'q, 'p, 'cv) store \<Rightarrow> nat \<Rightarrow> string list
     \<Rightarrow> (error + nat) \<times> ('fc, 'q, 'p, 'cv) store" where
  "qs_only ops lk h self args =
     (case tuple_of (get_field_path lk (folder_collection (h ! self)) (request_type (h ! self))) args of
        Inl e \<Rightarrow> (Inl (if is_value_error lk e then ValueError else e), h)
      | Inr paths \<Rightarrow>
          (case copy_self ops h self of (new_qs, h1) \<Rightarrow>
             (Inr new_qs, h1[new_qs := (h1 ! new_qs)\<lparr>only_fields := Some paths\<rparr>])))"

definition qs_order_by ::
  "('q, 'a) q_ops \<Rightarrow> ('fc, 'p) lookups \<Rightarrow> ('fc, 'q, 'p, 'cv) store \<Rightarrow> nat \<Rightarrow> string list
     \<Rightarrow> (error + nat) \<times> ('fc, 'q, 'p, 'cv) store" where
  "qs_order_by ops lk h self args =
     (case tuple_of (get_field_order lk (folder_collection (h ! self)) (request_type (h ! self))) args of
        Inl e \<Rightarrow> (Inl (if is_value_error lk e then ValueError else e), h)
      | Inr paths \<Rightarrow>
          (case copy_self ops h self of (new_qs, h1) \<Rightarrow>
             (Inr new_qs, h1[new_qs := (h1 ! new_qs)\<lparr>order_fields := Some paths\<rparr>])))"

text \<open>
  \<open>reverse\<close> flips the flag of each FieldOrder of the copy in place, which is why
  \<open>_copy_self\<close> copies \<open>order_fields\<close> deeply.
\<close>

definition qs_reverse ::
  "('q, 'a) q_ops \<Rightarrow> ('fc, 'q, 'p, 'cv) store \<Rightarrow> nat \<Rightarrow> (error + nat) \<times> ('fc, 'q, 'p, 'cv) store" where
  "qs_reverse ops h self =
     (if order_fields (h ! self) = None \<or> order_fields (h ! self) = Some [] then (Inl ValueError, h)
      else
        (case copy_self ops h self of (new_qs, h1) \<Rightarrow>
           (Inr new_qs,
            h1[new_qs := (h1 ! new_qs)\<lparr>order_fields :=
                 map_option (map (\<lambda>f. f\<lparr>reverse := \<not> reverse f\<rparr>)) (order_fields (h1 ! new_qs))\<rparr>])))"

text \<open>
  What a chaining call leaves as it was: every object of the store before the call is in
  the store after it, at its place and with all its attributes. An object returned is
  not one of them.
\<close>

definition chained ::
  "('fc, 'q, 'p, 'cv) store \<Rightarrow> (error + nat) \<times> ('fc, 'q, 'p, 'cv) store \<Rightarrow> bool" where
  "chained h res =
     (case res of (r, h') \<Rightarrow>
        take (length h) h' = h
        \<and> (case r of Inl e \<Rightarrow> True | Inr new_qs \<Rightarrow> length h \<le> new_qs \<and> new_qs < length h'))"

subsection \<open>Example restrictions and lookups\<close>

text \<open>
  Restrictions as lists of terms, a negated restriction marked by a first term \<open>not\<close>;
  field paths as names, of which \<open>subject\<close> and \<open>start\<close> are known.
\<close>

definition term_ops :: "(string list, string list) q_ops" where
  "term_ops = \<lparr>Q_new = (\<lambda>args. if [] \<in> set args then Inl ValueError else Inr args),
               Q_all = [], Q_never = [''never''],
               q_and = (\<lambda>a b. a @ b), q_invert = (\<lambda>a. ''not'' # a)\<rparr>"

definition name_lookups :: "(string, string) lookups" where
  "name_lookups =
     \<lparr>get_field_path = (\<lambda>fc rt nm. if nm \<in> {''subject'', ''start''} then Inr nm else Inl InvalidField),
      get_field_order = (\<lambda>fc rt nm. if nm \<in> {''subject'', ''start''}
                           then Inr \<lparr>field_path = nm, reverse = False\<rparr> else Inl InvalidField),
      other_value_errors = (\<lambda>e. False)\<rparr>"

definition inbox_store :: "(string, string list, string, string) store" where
  "inbox_store = [(QuerySet term_ops ''inbox'' ITEM)\<lparr>q := [''unread'']\<rparr>]"

section \<open>util.py, fields.py and properties.py: XML marshalling\<close>

text \<open>
  An lxml element: its tag (\<^verbatim>\<open>{namespace}name\<close>), its attributes in insertion order, its
  text and its children.
\<close>

datatype xml = Element (tag: string) (attrib: "(string \<times> string) list") (elem_text: "string option")
  (children: "xml list")

definition MNS :: string where
  "MNS = ''http://schemas.microsoft.com/exchange/services/2006/messages''"

definition TNS :: string where
  "TNS = ''http://schemas.microsoft.com/exchange/services/2006/types''"

definition SOAPNS :: string where
  "SOAPNS = ''http://schemas.xmlsoap.org/soap/envelope/''"

definition ns_translation :: "(string \<times> string) list" where
  "ns_translation = [(''s'', SOAPNS), (''m'', MNS), (''t'', TNS)]"

text \<open>\<^verbatim>\<open>s.split(c)\<close>: the pieces of \<open>s\<close> between the occurrences of \<open>c\<close>; never an empty list.\<close>

fun split_on :: "char \<Rightarrow> string \<Rightarrow> string list" where
  "split_on c [] = [[]]"
| "split_on c (x # xs) =
     (if x = c then [] # split_on c xs
      else (case split_on c xs of [] \<Rightarrow> [[x]] | p # ps \<Rightarrow> (x # p) # ps))"

text \<open>
  \<open>_ILLEGAL_XML_CHARS_RE\<close>, on characters below 256 (the model's strings are lists of
  such characters): the control characters other than tab, line feed and carriage
  return. \<open>safe_xml_value\<close> replaces each by a question mark.
\<close>

definition illegal_xml_char :: "char \<Rightarrow> bool" where
  "illegal_xml_char c =
     (let n = (of_char c :: nat) in n \<le> 8 \<or> n = 11 \<or> n = 12 \<or> (14 \<le> n \<and> n \<le> 31))"

definition safe_xml_value :: "string \<Rightarrow> string" where
  "safe_xml_value s = map (\<lambda>c. if illegal_xml_char c then CHR ''?'' else c) s"

text \<open>\<^verbatim>\<open>str(i)\<close> of an int.\<close>

function digits_of :: "nat \<Rightarrow> string" where
  "digits_of n = (if n < 10 then [char_of (48 + n)] else digits_of (n div 10) @ [char_of (48 + n mod 10)])"
  by pat_completeness auto
termination
  by (relation "measure id") auto

declare digits_of.simps [simp del]

definition str_of_int :: "int \<Rightarrow> string" where
  "str_of_int i = (if i < 0 then CHR ''-'' # digits_of (nat (- i)) else digits_of (nat i))"

text \<open>
  \<open>value_to_xml_text\<close>, for the values of the model; a value of no listed type raises
  TypeError.
\<close>

fun value_to_xml_text :: "pyval \<Rightarrow> error + string" where
  "value_to_xml_text (PStr s) = Inr (safe_xml_value s)"
| "value_to_xml_text (PBool b) = Inr (if b then ''1'' else ''0'')"
| "value_to_xml_text (PInt i) = Inr (str_of_int i)"
| "value_to_xml_text v = Inl TypeError"

text \<open>
  \<open>xml_text_to_value\<close>. \<open>py_int\<close> is Python's \<^verbatim>\<open>int\<close> on a string; \<open>None\<close> is the ValueError
  it raises, which \<open>from_xml\<close> catches. A type outside the table raises KeyError.
\<close>

definition xml_text_to_value :: "(string \<Rightarrow> int option) \<Rightarrow> string \<Rightarrow> cls option \<Rightarrow> error + pyval" where
  "xml_text_to_value py_int val vcls =
     (case vcls of
        Some CStr \<Rightarrow> Inr (PStr val)
      | Some CBool \<Rightarrow>
          (case map_of [(''true'', True), (''on'', True), (''false'', False), (''off'', False)] (lower val) of
             Some b \<Rightarrow> Inr (PBool b)
           | None \<Rightarrow> Inr PNone)
      | Some CInt \<Rightarrow> (case py_int val of Some i \<Rightarrow> Inr (PInt i) | None \<Rightarrow> Inl ValueError)
      | _ \<Rightarrow> Inl KeyError)"

text \<open>
  \<open>create_element\<close>: a prefixed name is translated through \<open>ns_translation\<close>; the attributes
  are set in order. Unpacking a name with more than one colon raises ValueError, an
  unknown prefix KeyError, and an attribute whose name is None TypeError.
\<close>

fun dict_set :: "'k \<Rightarrow> 'v \<Rightarrow> ('k \<times> 'v) list \<Rightarrow> ('k \<times> 'v) list" where
  "dict_set k v [] = [(k, v)]"
| "dict_set k v ((k', v') # d) = (if k' = k then (k, v) # d else (k', v') # dict_set k v d)"

fun set_attrs :: "(string option \<times> string) list \<Rightarrow> (string \<times> string) list \<Rightarrow> error + (string \<times> string) list" where
  "set_attrs [] acc = Inr acc"
| "set_attrs ((None, v) # kvs) acc = Inl TypeError"
| "set_attrs ((Some k, v) # kvs) acc = set_attrs kvs (dict_set k v acc)"

definition create_element :: "string \<Rightarrow> (string option \<times> string) list \<Rightarrow> error + xml" where
  "create_element nm attrs =
     (case (if CHR '':'' \<in> set nm then
              (case split_on CHR '':'' nm of
                 [ns, local] \<Rightarrow>
                   (case map_of ns_translation ns of
                      None \<Rightarrow> Inl KeyError
                    | Some uri \<Rightarrow> Inr (''{'' @ uri @ ''}'' @ local))
               | _ \<Rightarrow> Inl ValueError)
            else Inr nm) of
        Inl e \<Rightarrow> Inl e
      | Inr t \<Rightarrow> (case set_attrs attrs [] of Inl e \<Rightarrow> Inl e | Inr kvs \<Rightarrow> Inr (Element t kvs None [])))"

text \<open>
  \<open>set_xml_value\<close>, for the values of the model: a str, bool or int sets the text, the
  values of a list are set one after the other, and a value of no listed type raises
  ValueError. (Elements, field paths and EWSElement instances as values are outside the
  model.)
\<close>

fun set_xml_value :: "xml \<Rightarrow> pyval \<Rightarrow> error + xml"
  and set_xml_values :: "xml \<Rightarrow> pyval list \<Rightarrow> error + xml" where
  "set_xml_value elem (PStr s) = Inr (Element (tag elem) (attrib elem) (Some (safe_xml_value s)) (children elem))"
| "set_xml_value elem (PBool b) = Inr (Element (tag elem) (attrib elem) (Some (if b then ''1'' else ''0'')) (children elem))"
| "set_xml_value elem (PInt i) = Inr (Element (tag elem) (attrib elem) (Some (str_of_int i)) (children elem))"
| "set_xml_value elem (PList vs) = set_xml_values elem vs"
| "set_xml_value elem PNone = Inl ValueError"
| "set_xml_value elem (PObj c m) = Inl ValueError"
| "set_xml_values elem [] = Inr elem"
| "set_xml_values elem (v # vs) =
     (case set_xml_value elem v of Inl e \<Rightarrow> Inl e | Inr elem' \<Rightarrow> set_xml_values elem' vs)"

text \<open>\<^verbatim>\<open>tree.find(name)\<close>: the first child with that tag. \<open>get_xml_attr\<close>: its text, or None.\<close>

definition find_child :: "xml \<Rightarrow> string \<Rightarrow> xml option" where
  "find_child tree nm = List.find (\<lambda>c. tag c = nm) (children tree)"

definition get_xml_attr :: "xml \<Rightarrow> string \<Rightarrow> string option" where
  "get_xml_attr tree nm =
     (case find_child tree nm of
        None \<Rightarrow> None
      | Some elem \<Rightarrow> (case elem_text elem of None \<Rightarrow> None | Some t \<Rightarrow> if t = [] then None else Some t))"

subsection \<open>FieldURIField\<close>

text \<open>
  A FieldURIField adds \<open>field_uri\<close> and \<open>namespace\<close>; \<open>field_uri_postfix\<close> is the part of
  \<open>field_uri\<close> after its first colon, or all of it.
\<close>

record 'b field_uri_field = "'b field" +
  field_uri :: "string option"
  namespace :: string

definition field_uri_postfix :: "('b, 'x) field_uri_field_scheme \<Rightarrow> string option" where
  "field_uri_postfix f =
     (case field_uri f of
        None \<Rightarrow> None
      | Some u \<Rightarrow> if CHR '':'' \<in> set u then Some (split_on CHR '':'' u ! 1) else Some u)"

definition field_request_tag :: "('b, 'x) field_uri_field_scheme \<Rightarrow> error + string" where
  "field_request_tag f =
     (case field_uri_postfix f of
        None \<Rightarrow> Inl ValueError
      | Some p \<Rightarrow> if p = [] then Inl ValueError else Inr (''t:'' @ p))"

definition field_response_tag :: "('b, 'x) field_uri_field_scheme \<Rightarrow> error + string" where
  "field_response_tag f =
     (case field_uri_postfix f of
        None \<Rightarrow> Inl ValueError
      | Some p \<Rightarrow> if p = [] then Inl ValueError else Inr (''{'' @ namespace f @ ''}'' @ p))"

text \<open>
  \<open>_get_val_from_elem\<close>: the attribute or the text of the child, an empty string counting
  as None. \<^verbatim>\<open>elem.get(None)\<close> raises TypeError.
\<close>

definition get_val_from_elem :: "('b, 'x) field_uri_field_scheme \<Rightarrow> xml \<Rightarrow> error + string option" where
  "get_val_from_elem f elem =
     (if is_attribute f then
        (case field_uri f of
           None \<Rightarrow> Inl TypeError
         | Some k \<Rightarrow>
             (case map_of (attrib elem) k of
                None \<Rightarrow> Inr None
              | Some v \<Rightarrow> if v = [] then Inr None else Inr (Some v)))
      else
        (case field_response_tag f of
           Inl e \<Rightarrow> Inl e
         | Inr t \<Rightarrow> Inr (get_xml_attr elem t)))"

definition field_from_xml ::
  "(string \<Rightarrow> int option) \<Rightarrow> ('b, 'x) field_uri_field_scheme \<Rightarrow> xml \<Rightarrow> error + pyval" where
  "field_from_xml py_int f elem =
     (case get_val_from_elem f elem of
        Inl e \<Rightarrow> Inl e
      | Inr None \<Rightarrow> Inr (default f)
      | Inr (Some val) \<Rightarrow>
          (case xml_text_to_value py_int val (value_cls f) of
             Inl ValueError \<Rightarrow> Inr PNone
           | Inl e \<Rightarrow> Inl e
           | Inr v \<Rightarrow> Inr v))"

definition field_to_xml :: "('b, 'x) field_uri_field_scheme \<Rightarrow> pyval \<Rightarrow> error + xml" where
  "field_to_xml f val =
     (case field_request_tag f of
        Inl e \<Rightarrow> Inl e
      | Inr t \<Rightarrow>
          (case create_element t [] of
             Inl e \<Rightarrow> Inl e
           | Inr field_elem \<Rightarrow> set_xml_value field_elem val))"

subsection \<open>EWSElement\<close>

text \<open>
  An element class: \<open>ELEMENT_NAME\<close>, \<open>NAMESPACE\<close> and \<open>FIELDS\<close>. An instance is the tuple of
  its field values, in the order of \<open>FIELDS\<close>; it is the tuple \<^verbatim>\<open>__hash__\<close> hashes, and two
  instances are equal when their hashes are.
\<close>

record 'b ews_class =
  ELEMENT_NAME :: "string option"
  NAMESPACE :: string
  FIELDS :: "'b field_uri_field list"

type_synonym field_values = "pyval list"

text \<open>
  \<open>EWSElement.clean\<close>: every field the version supports is cleaned with \<open>Field.clean\<close> and
  takes the cleaned value; the others are left as they are.
\<close>

fun clean_fields :: "('b::linorder) field_uri_field list \<Rightarrow> field_values \<Rightarrow> 'b version option \<Rightarrow> error + field_values" where
  "clean_fields (f # fs) (val # vals) ver =
     (if (case ver of None \<Rightarrow> False | Some v \<Rightarrow> \<not> supports_version f v) then
        (case clean_fields fs vals ver of Inl e \<Rightarrow> Inl e | Inr vals' \<Rightarrow> Inr (val # vals'))
      else
        (case clean f val ver of
           Inl e \<Rightarrow> Inl e
         | Inr val' \<Rightarrow>
             (case clean_fields fs vals ver of Inl e \<Rightarrow> Inl e | Inr vals' \<Rightarrow> Inr (val' # vals'))))"
| "clean_fields fs vals ver = Inr []"

definition request_tag :: "'b ews_class \<Rightarrow> error + string" where
  "request_tag c =
     (case ELEMENT_NAME c of
        None \<Rightarrow> Inl ValueError
      | Some n \<Rightarrow>
          if n = [] then Inl ValueError
          else if NAMESPACE c = TNS then Inr (''t:'' @ n)
          else if NAMESPACE c = MNS then Inr (''m:'' @ n)
          else Inl KeyError)"

text \<open>\<^verbatim>\<open>value is None or (f.is_list and not value)\<close>.\<close>

definition no_value :: "('b, 'x) field_scheme \<Rightarrow> pyval \<Rightarrow> bool" where
  "no_value f val = (val = PNone \<or> (is_list f \<and> (val = PList [] \<or> val = PStr [] \<or> val = PBool False \<or> val = PInt 0)))"

text \<open>The loop of \<open>to_xml\<close> that collects the attributes, a dict from \<open>field_uri\<close> to text.\<close>

fun collect_attrs ::
  "'b field_uri_field list \<Rightarrow> field_values \<Rightarrow> (string option \<times> string) list
     \<Rightarrow> error + (string option \<times> string) list" where
  "collect_attrs (f # fs) (val # vals) attrs =
     (if \<not> is_attribute f then collect_attrs fs vals attrs
      else if is_read_only f then collect_attrs fs vals attrs
      else if no_value f val then collect_attrs fs vals attrs
      else (case value_to_xml_text val of
              Inl e \<Rightarrow> Inl e
            | Inr t \<Rightarrow> collect_attrs fs vals (dict_set (field_uri f) t attrs)))"
| "collect_attrs fs vals attrs = Inr attrs"

text \<open>The loop of \<open>to_xml\<close> that appends the elements of the supported fields.\<close>

fun add_elements ::
  "('b::linorder) field_uri_field list \<Rightarrow> field_values \<Rightarrow> 'b version \<Rightarrow> xml \<Rightarrow> error + xml" where
  "add_elements (f # fs) (val # vals) v elem =
     (if is_attribute f \<or> \<not> supports_version f v then add_elements fs vals v elem
      else if is_read_only f then add_elements fs vals v elem
      else if no_value f val then add_elements fs vals v elem
      else (case field_to_xml f val of
              Inl e \<Rightarrow> Inl e
            | Inr child \<Rightarrow>
                add_elements fs vals v
                  (Element (tag elem) (attrib elem) (elem_text elem) (children elem @ [child]))))"
| "add_elements fs vals v elem = Inr elem"

text \<open>
  \<open>to_xml\<close>: the instance is cleaned in place, so the result is the instance after the
  call together with the element.
\<close>

definition to_xml :: "('b::linorder) ews_class \<Rightarrow> field_values \<Rightarrow> 'b version \<Rightarrow> error + (field_values \<times> xml)" where
  "to_xml c vals v =
     (case clean_fields (FIELDS c) vals (Some v) of
        Inl e \<Rightarrow> Inl e
      | Inr vals' \<Rightarrow>
          (case collect_attrs (FIELDS c) vals' [] of
             Inl e \<Rightarrow> Inl e
           | Inr attrs \<Rightarrow>
               (case request_tag c of
                  Inl e \<Rightarrow> Inl e
                | Inr t \<Rightarrow>
                    (case create_element t attrs of
                       Inl e \<Rightarrow> Inl e
                     | Inr elem \<Rightarrow>
                         (case add_elements (FIELDS c) vals' v elem of
                            Inl e \<Rightarrow> Inl e
                          | Inr elem' \<Rightarrow> Inr (vals', elem'))))))"

text \<open>\<open>from_xml\<close>: every field reads its value from the element.\<close>

definition from_xml :: "(string \<Rightarrow> int option) \<Rightarrow> 'b ews_class \<Rightarrow> xml \<Rightarrow> error + field_values" where
  "from_xml py_int c elem = tuple_of (\<lambda>f. field_from_xml py_int f elem) (FIELDS c)"

subsection \<open>What a round trip keeps\<close>

text \<open>
  \<open>to_xml\<close> writes a field when it is not read-only, has a value, and is an attribute or
  supported by the version.
\<close>

definition written :: "('b::linorder) field_uri_field \<Rightarrow> 'b version \<Rightarrow> pyval \<Rightarrow> bool" where
  "written f v val \<longleftrightarrow> \<not> is_read_only f \<and> \<not> no_value f val \<and> (is_attribute f \<or> supports_version f v)"

text \<open>A text that comes back as it was written: not empty, and with no illegal character.\<close>

definition legal_text :: "string \<Rightarrow> bool" where
  "legal_text s \<longleftrightarrow> s \<noteq> [] \<and> list_all (\<lambda>c. \<not> illegal_xml_char c) s"

text \<open>
  A value reads back when \<open>value_to_xml_text\<close> gives it a text, the text is not empty (an
  empty text is read as no value) and \<open>xml_text_to_value\<close> turns the text into the value
  again, for the \<open>value_cls\<close> of the field.
\<close>

definition reads_back :: "(string \<Rightarrow> int option) \<Rightarrow> ('b, 'x) field_uri_field_scheme \<Rightarrow> pyval \<Rightarrow> bool" where
  "reads_back py_int f val \<longleftrightarrow>
     (case value_to_xml_text val of
        Inl e \<Rightarrow> False
      | Inr t \<Rightarrow> t \<noteq> [] \<and> xml_text_to_value py_int t (value_cls f) = Inr val)"

text \<open>
  A field value survives the round trip when it is written and reads back, or is not
  written and is the field's default.
\<close>

definition survives ::
  "(string \<Rightarrow> int option) \<Rightarrow> ('b::linorder) field_uri_field \<Rightarrow> 'b version \<Rightarrow> pyval \<Rightarrow> bool" where
  "survives py_int f v val \<longleftrightarrow>
     (if written f v val then reads_back py_int f val else val = default f)"

text \<open>
  A class whose fields can be told apart in the XML: every field has a \<open>field_uri\<close> and the
  namespace \<open>TNS\<close>, the attribute fields have different \<open>field_uri\<close>s, and the element
  fields have different, non-empty tag names.
\<close>

definition separable :: "'b ews_class \<Rightarrow> bool" where
  "separable c \<longleftrightarrow>
     list_all (\<lambda>f. namespace f = TNS \<and> field_uri f \<noteq> None
                  \<and> (\<not> is_attribute f \<longrightarrow> field_uri_postfix f \<noteq> Some [])) (FIELDS c)
     \<and> distinct (map field_uri (filter is_attribute (FIELDS c)))
     \<and> distinct (map field_uri_postfix (filter (\<lambda>f. \<not> is_attribute f) (FIELDS c)))"


text \<open>An attribute field that \<open>to_xml\<close> writes.\<close>

definition written_attr :: "('b, 'x) field_uri_field_scheme \<Rightarrow> pyval \<Rightarrow> bool" where
  "written_attr f val \<longleftrightarrow> is_attribute f \<and> \<not> is_read_only f \<and> \<not> no_value f val"

text \<open>The tag of the element a field is written to and read from.\<close>

definition field_tag :: "('b, 'x) field_uri_field_scheme \<Rightarrow> string" where
  "field_tag f = ''{'' @ TNS @ ''}'' @ the (field_uri_postfix f)"

text \<open>An element field that \<open>to_xml\<close> writes.\<close>

definition written_elem :: "('b::linorder) field_uri_field \<Rightarrow> 'b version \<Rightarrow> pyval \<Rightarrow> bool" where
  "written_elem f v val \<longleftrightarrow>
     \<not> is_attribute f \<and> supports_version f v \<and> \<not> is_read_only f \<and> \<not> no_value f val"

subsection \<open>Example element classes\<close>

definition text_field :: "string \<Rightarrow> string \<Rightarrow> bool \<Rightarrow> bool \<Rightarrow> cls \<Rightarrow> build4 field_uri_field" where
  "text_field nm uri attribute read_only vcls =
     field.extend (Field nm False False read_only False True attribute PNone None None (Some vcls) False)
       (field_uri_field.fields (Some uri) TNS)"

definition Reminder :: "build4 ews_class" where
  "Reminder = \<lparr>ELEMENT_NAME = Some ''Reminder'', NAMESPACE = TNS,
              FIELDS = [text_field ''subject'' ''Subject'' False False CStr,
                        text_field ''location'' ''Location'' False False CStr,
                        text_field ''minutes'' ''ReminderMinutesBeforeStart'' False False CInt,
                        text_field ''kind'' ''Kind'' True False CStr]\<rparr>"

definition ReadOnlyNote :: "build4 ews_class" where
  "ReadOnlyNote = \<lparr>ELEMENT_NAME = Some ''Note'', NAMESPACE = TNS,
              FIELDS = [text_field ''display'' ''DisplayName'' False True CStr]\<rparr>"

definition Flag :: "build4 ews_class" where
  "Flag = \<lparr>ELEMENT_NAME = Some ''Flag'', NAMESPACE = TNS,
              FIELDS = [text_field ''is_set'' ''IsSet'' False False CBool]\<rparr>"

definition v2016 :: "build4 version" where
  "v2016 = \<lparr>build = (15, 1, 0, 0), api_version = ''Exchange2016''\<rparr>"

section \<open>Properties of chunkify\<close>

lemma py_slice_chunk:
  assumes "0 \<le> i" "1 \<le> c"
  shows "py_slice xs i (i + c) = take (nat c) (drop (nat i) xs)"
proof (cases "nat i \<le> length xs")
  case True
  have "min (nat (i + c)) (length xs) - nat i = min (nat c) (length xs - nat i)"
    using assms True by (simp add: nat_add_distrib min_def) linarith
  moreover have "take (min (nat c) (length xs - nat i)) (drop (nat i) xs) = take (nat c) (drop (nat i) xs)"
    by (simp add: min_def)
  ultimately show ?thesis
    using assms True by (simp add: py_slice_def slice_bound_def Let_def min_absorb1)
next
  case False
  then show ?thesis
    using assms by (simp add: py_slice_def slice_bound_def Let_def)
qed

lemma range_up_step:
  "0 < step \<Longrightarrow> i < stop \<Longrightarrow> range_up i stop step = i # range_up (i + step) stop step"
  by (subst range_up.simps) simp

lemma range_up_done: "\<not> i < stop \<Longrightarrow> range_up i stop step = []"
  by (subst range_up.simps) simp

lemma chunks_from_concat:
  assumes "1 \<le> c" "0 \<le> i"
  shows "concat (map (\<lambda>k. py_slice xs k (k + c)) (range_up i (int (length xs)) c)) = drop (nat i) xs"
  using assms
proof (induction i "int (length xs)" c rule: range_up.induct)
  case (1 i step)
  show ?case
  proof (cases "i < int (length xs)")
    case True
    have d: "drop (nat (i + step)) xs = drop (nat step) (drop (nat i) xs)"
      using "1.prems" by (simp add: nat_add_distrib add.commute)
    have ih: "concat (map (\<lambda>k. py_slice xs k (k + step)) (range_up (i + step) (int (length xs)) step))
                = drop (nat (i + step)) xs"
      using "1.hyps" True "1.prems" by simp
    have hd: "py_slice xs i (i + step) = take (nat step) (drop (nat i) xs)"
      using "1.prems" by (simp add: py_slice_chunk)
    have "concat (map (\<lambda>k. py_slice xs k (k + step)) (range_up i (int (length xs)) step))
            = take (nat step) (drop (nat i) xs) @ drop (nat step) (drop (nat i) xs)"
      using True "1.prems" by (simp only: range_up_step list.map concat.simps ih hd d)
    then show ?thesis
      by (simp only: append_take_drop_id)
  next
    case False
    then show ?thesis
      using "1.prems" by (simp add: range_up_done)
  qed
qed

lemma chunks_from_lengths:
  assumes "1 \<le> c" "0 \<le> i"
  shows "\<forall>ch \<in> set (map (\<lambda>k. py_slice xs k (k + c)) (range_up i (int (length xs)) c)).
           1 \<le> length ch \<and> length ch \<le> nat c"
  using assms
proof (induction i "int (length xs)" c rule: range_up.induct)
  case (1 i step)
  show ?case
  proof (cases "i < int (length xs)")
    case True
    have unfold: "range_up i (int (length xs)) step = i # range_up (i + step) (int (length xs)) step"
      using True "1.prems" by (simp add: range_up_step [of step i])
    have ih: "\<forall>ch \<in> set (map (\<lambda>k. py_slice xs k (k + step)) (range_up (i + step) (int (length xs)) step)).
           1 \<le> length ch \<and> length ch \<le> nat step"
      using "1.hyps" True "1.prems" by simp
    have hd: "1 \<le> length (py_slice xs i (i + step)) \<and> length (py_slice xs i (i + step)) \<le> nat step"
      using True "1.prems" by (simp add: py_slice_chunk) linarith
    show ?thesis
      unfolding unfold using ih hd by simp
  next
    case False
    then show ?thesis
      by (simp add: range_up_done)
  qed
qed

lemma chunks_from_butlast:
  assumes "1 \<le> c" "0 \<le> i"
  shows "\<forall>ch \<in> set (butlast (map (\<lambda>k. py_slice xs k (k + c)) (range_up i (int (length xs)) c))).
           length ch = nat c"
  using assms
proof (induction i "int (length xs)" c rule: range_up.induct)
  case (1 i step)
  show ?case
  proof (cases "i < int (length xs)")
    case True
    have unfold: "range_up i (int (length xs)) step = i # range_up (i + step) (int (length xs)) step"
      using True "1.prems" by (simp add: range_up_step [of step i])
    have ih: "\<forall>ch \<in> set (butlast (map (\<lambda>k. py_slice xs k (k + step))
                 (range_up (i + step) (int (length xs)) step))). length ch = nat step"
      using "1.hyps" True "1.prems" by simp
    show ?thesis
    proof (cases "i + step < int (length xs)")
      case True
      then have "length (py_slice xs i (i + step)) = nat step"
        using "1.prems" by (simp add: py_slice_chunk)
      then show ?thesis
        unfolding unfold using ih by simp
    next
      case False
      then have "range_up (i + step) (int (length xs)) step = []"
        by (simp add: range_up_done)
      then show ?thesis
        unfolding unfold by simp
    qed
  next
    case False
    then show ?thesis
      by (simp add: range_up_done)
  qed
qed

text \<open>
  C10. For a list (or tuple) \<open>xs\<close> and a chunk size of at least 1, \<open>chunkify\<close> raises
  nothing; the concatenation of the chunks it yields is \<open>xs\<close>; every chunk but the last
  has exactly \<open>chunksize\<close> elements; the last has between 1 and \<open>chunksize\<close> elements; no
  chunk is empty; and an empty input yields no chunks.
\<close>

theorem chunkify_partitions:
  assumes "1 \<le> chunksize"
  shows "\<exists>chunks. chunkify xs chunksize = Inr chunks
           \<and> concat chunks = xs
           \<and> (\<forall>ch \<in> set (butlast chunks). length ch = nat chunksize)
           \<and> (chunks \<noteq> [] \<longrightarrow> 1 \<le> length (last chunks) \<and> length (last chunks) \<le> nat chunksize)
           \<and> [] \<notin> set chunks
           \<and> (xs = [] \<longrightarrow> chunks = [])"
proof -
  let ?chunks = "map (\<lambda>k. py_slice xs k (k + chunksize)) (range_up 0 (int (length xs)) chunksize)"
  have run: "chunkify xs chunksize = Inr ?chunks"
    using assms by (simp add: chunkify_def py_range_def)
  have cat: "concat ?chunks = xs"
    using chunks_from_concat [OF assms, of 0 xs] by simp
  have lens: "\<forall>ch \<in> set ?chunks. 1 \<le> length ch \<and> length ch \<le> nat chunksize"
    using chunks_from_lengths [OF assms, of 0 xs] by simp
  have full: "\<forall>ch \<in> set (butlast ?chunks). length ch = nat chunksize"
    using chunks_from_butlast [OF assms, of 0 xs] by simp
  have lst: "?chunks \<noteq> [] \<longrightarrow> 1 \<le> length (last ?chunks) \<and> length (last ?chunks) \<le> nat chunksize"
    using lens last_in_set by blast
  have nonempty: "[] \<notin> set ?chunks"
    using lens by fastforce
  have empty: "xs = [] \<longrightarrow> ?chunks = []"
    by (simp add: range_up_done)
  show ?thesis
    using run cat full lst nonempty empty by blast
qed

theorem chunkify_partitions_witness:
  "(1::int) \<le> 2 \<and> (\<exists>chunks. chunkify [1, 2, 3, 4, 5 :: nat] 2 = Inr chunks \<and> concat chunks = [1, 2, 3, 4, 5])"
proof -
  have h: "(1::int) \<le> 2" by simp
  from chunkify_partitions [OF h, of "[1, 2, 3, 4, 5 :: nat]"]
  obtain chunks where "chunkify [1, 2, 3, 4, 5 :: nat] 2 = Inr chunks" "concat chunks = [1, 2, 3, 4, 5]"
    by (elim exE conjE)
  then show ?thesis using h by (intro conjI exI [of _ chunks])
qed

section \<open>Properties of the request loop\<close>

lemma iteration_elim:
  assumes it: "iteration py_int urlparse allow s a = f"
  obtains
    (exc) e t where "f = Leave (Inl e) t" "back_off_calls t = back_off_calls s"
      "posts t = posts s + 1" "refreshes t = refreshes s" "redirects t = redirects s"
      "retry t = retry s"
      "slept t = slept s + (if back_off_if_needed (fst (back_off_until (policy s) (now a))) (now a) then 1 else 0)"
  | (brk) r t where "f = Leave (Inr r) t" "back_off_calls t = back_off_calls s"
      "posts t = posts s + 1" "refreshes t = refreshes s" "redirects t = redirects s"
      "retry t = retry s" "wait t = wait s" "policy t = snd (back_off_until (policy s) (now a))"
      "slept t = slept s + (if back_off_if_needed (fst (back_off_until (policy s) (now a))) (now a) then 1 else 0)"
      "post_response (cur_url s) (post a) = Inr r" "\<not> need_new_credentials r"
      "status_code r \<notin> {301, 302}"
  | (refresh) r t where "f = Continue t" "back_off_calls t = back_off_calls s"
      "posts t = posts s + 1" "refreshes t = refreshes s + 1" "redirects t = redirects s"
      "retry t = retry s" "wait t = wait s" "policy t = snd (back_off_until (policy s) (now a))"
      "slept t = slept s + (if back_off_if_needed (fst (back_off_until (policy s) (now a))) (now a) then 1 else 0)"
      "post_response (cur_url s) (post a) = Inr r" "need_new_credentials r"
  | (again) r w p2 t where "f = Continue t"
      "back_off_calls t = back_off_calls s @ [(wait s, r, w)]"
      "posts t = posts s + 1" "refreshes t = refreshes s" "redirects t = redirects s"
      "retry t = retry s + 1" "wait t = w * 2" "policy t = p2"
      "slept t = slept s + (if back_off_if_needed (fst (back_off_until (policy s) (now a))) (now a) then 1 else 0)"
      "post_response (cur_url s) (post a) = Inr r" "\<not> need_new_credentials r"
      "may_retry_on_error (snd (back_off_until (policy s) (now a))) r (total_wait a) = Inr True"
      "retry_after py_int r (wait s) = Inr w"
      "back_off (snd (back_off_until (policy s) (now a))) (now a) (Some w) = Inr p2"
  | (redirected) r u n t where "f = Continue t" "back_off_calls t = back_off_calls s"
      "posts t = posts s + 1" "refreshes t = refreshes s" "redirects t = n"
      "retry t = retry s" "wait t = wait s" "policy t = snd (back_off_until (policy s) (now a))"
      "slept t = slept s + (if back_off_if_needed (fst (back_off_until (policy s) (now a))) (now a) then 1 else 0)"
      "post_response (cur_url s) (post a) = Inr r" "\<not> need_new_credentials r"
      "redirect_or_fail urlparse r (redirects s) allow = Inr (u, n)"
proof -
  obtain until_opt p1 where bu: "back_off_until (policy s) (now a) = (until_opt, p1)"
    by (cases "back_off_until (policy s) (now a)")
  define s1 where "s1 = s\<lparr>policy := p1,
                 slept := (if back_off_if_needed until_opt (now a) then slept s + 1 else slept s),
                 posts := posts s + 1\<rparr>"
  have s1: "back_off_calls s1 = back_off_calls s" "wait s1 = wait s" "posts s1 = posts s + 1"
    "refreshes s1 = refreshes s" "redirects s1 = redirects s" "retry s1 = retry s"
    "policy s1 = p1" "cur_url s1 = cur_url s"
    "slept s1 = slept s + (if back_off_if_needed until_opt (now a) then 1 else 0)"
    by (simp_all add: s1_def)
  note unfold = it [symmetric] iteration_def Let_def s1_def
  show ?thesis
  proof (cases "post_response (cur_url s) (post a)")
    case (Inl e)
    then show ?thesis using s1 bu by (intro exc [where e = e and t = s1]) (simp_all add: unfold)
  next
    case (Inr r)
    note pr = Inr
    show ?thesis
    proof (cases "need_new_credentials r")
      case True
      then show ?thesis using s1 bu pr
        by (intro refresh [where r = r and t = "s1\<lparr>refreshes := refreshes s1 + 1\<rparr>"]) (simp_all add: unfold)
    next
      case False
      note nc = False
      show ?thesis
      proof (cases "may_retry_on_error p1 r (total_wait a)")
        case (Inl e)
        then show ?thesis using s1 bu pr nc by (intro exc [where e = e and t = s1]) (simp_all add: unfold)
      next
        case (Inr b)
        note mr = Inr
        show ?thesis
        proof (cases b)
          case True
          note bt = True
          show ?thesis
          proof (cases "retry_after py_int r (wait s)")
            case (Inl e)
            then show ?thesis using s1 bu pr nc mr bt by (intro exc [where e = e and t = s1]) (simp_all add: unfold)
          next
            case (Inr w)
            note ra = Inr
            show ?thesis
            proof (cases "back_off p1 (now a) (Some w)")
              case (Inl e)
              then show ?thesis using s1 bu pr nc mr bt ra
                by (intro exc [where e = e and t = "s1\<lparr>wait := w\<rparr>"]) (simp_all add: unfold)
            next
              case (Inr p2)
              then show ?thesis using s1 bu pr nc mr bt ra
                by (intro again [where r = r and w = w and ?p2.0 = p2 and t = "s1\<lparr>policy := p2, wait := w * 2,
                    retry := retry s1 + 1, back_off_calls := back_off_calls s1 @ [(wait s1, r, w)]\<rparr>"]) (simp_all add: unfold)
            qed
          qed
        next
          case False
          note bf = False
          show ?thesis
          proof (cases "status_code r \<in> {301, 302}")
            case True
            note st = True
            show ?thesis
            proof (cases "redirect_or_fail urlparse r (redirects s) allow")
              case (Inl e)
              then show ?thesis using s1 bu pr nc mr bf st by (intro exc [where e = e and t = s1]) (simp_all add: unfold)
            next
              case (Inr un)
              obtain u n where un: "un = (u, n)" by (cases un)
              show ?thesis using Inr un s1 bu pr nc mr bf st
                by (intro redirected [where r = r and u = u and n = n and t = "s1\<lparr>cur_url := u, redirects := n\<rparr>"]) (simp_all add: unfold)
            qed
          next
            case False
            then show ?thesis using s1 bu pr nc mr bf
              by (intro brk [where r = r and t = s1]) (simp_all add: unfold)
          qed
        qed
      qed
    qed
  qed
qed


lemma chain_end_snoc: "chain_end w (L @ [(w1, r, d)]) = 2 * d"
  by (induction w L rule: chain_end.induct) auto

lemma backoff_chain_snoc:
  "backoff_chain py_int w (L @ [(w1, r, d)]) \<longleftrightarrow>
     backoff_chain py_int w L \<and> w1 = chain_end w L \<and> d = spec_delay py_int r w1 \<and> w1 \<le> d"
  by (induction py_int w L rule: backoff_chain.induct) auto

lemma retry_after_spec:
  "retry_after py_int r w = Inr d \<Longrightarrow> 0 \<le> w \<Longrightarrow> d = spec_delay py_int r w \<and> w \<le> d"
  by (auto simp: retry_after_def spec_delay_def header_int_def split: option.splits hval.splits if_splits)

lemma iteration_continue_inv:
  assumes "iteration py_int urlparse allow s a = Continue s'" "chain_inv py_int s"
  shows "chain_inv py_int s'"
  using assms(1)
proof (cases rule: iteration_elim)
  case (again r w p2 t)
  then have "t = s'" by simp
  moreover have "w = spec_delay py_int r (wait s) \<and> wait s \<le> w"
    using retry_after_spec [OF again(13)] assms(2) by (simp add: chain_inv_def)
  ultimately show ?thesis
    using again assms(2) by (simp add: chain_inv_def backoff_chain_snoc chain_end_snoc)
qed (use assms(2) in \<open>simp_all add: chain_inv_def\<close>)

lemma iteration_leave_inv:
  assumes "iteration py_int urlparse allow s a = Leave res s'" "chain_inv py_int s"
  shows "backoff_chain py_int RETRY_WAIT (back_off_calls s')"
  using assms(1)
  by (cases rule: iteration_elim) (use assms(2) in \<open>simp_all add: chain_inv_def\<close>)

lemma request_loop_chain:
  "chain_inv py_int s \<Longrightarrow>
   backoff_chain py_int RETRY_WAIT (back_off_calls (snd (request_loop py_int urlparse allow s env)))"
proof (induction env arbitrary: s)
  case Nil
  then show ?case by (simp add: chain_inv_def)
next
  case (Cons a rest)
  show ?case
  proof (cases "iteration py_int urlparse allow s a")
    case (Continue s1)
    then show ?thesis
      using Cons.IH [of s1] iteration_continue_inv [OF Continue Cons.prems] by simp
  next
    case (Leave r s1)
    then show ?thesis
      using iteration_leave_inv [OF Leave Cons.prems] by simp
  qed
qed

lemma post_ratelimited_counters:
  "back_off_calls (snd (post_ratelimited py_int urlparse p u allow env))
     = back_off_calls (snd (request_loop py_int urlparse allow (init_state p u) env))"
  "posts (snd (post_ratelimited py_int urlparse p u allow env))
     = posts (snd (request_loop py_int urlparse allow (init_state p u) env))"
  "refreshes (snd (post_ratelimited py_int urlparse p u allow env))
     = refreshes (snd (request_loop py_int urlparse allow (init_state p u) env))"
  "redirects (snd (post_ratelimited py_int urlparse p u allow env))
     = redirects (snd (request_loop py_int urlparse allow (init_state p u) env))"
  "slept (snd (post_ratelimited py_int urlparse p u allow env))
     = slept (snd (request_loop py_int urlparse allow (init_state p u) env))"
  "retry (snd (post_ratelimited py_int urlparse p u allow env))
     = retry (snd (request_loop py_int urlparse allow (init_state p u) env))"
  "fst (post_ratelimited py_int urlparse p u allow env) = None
     \<longleftrightarrow> fst (request_loop py_int urlparse allow (init_state p u) env) = None"
  by (simp_all add: post_ratelimited_def split: prod.splits option.splits sum.splits)

lemmas run_simps = post_ratelimited_def init_state_def iteration_def Let_def post_response_def need_new_credentials_def
     truthy_def busy_def ok_def retry_after_def digits_def RETRY_WAIT_def DEFAULT_BACKOFF_def back_off_if_needed_def is_xml_def
     busy_run_def expired_run_def ok_run_def DummyResponse_def


text \<open>
  C3. In \<open>post_ratelimited\<close> the retry delay starts at \<open>RETRY_WAIT\<close>, which is 10 seconds.
  For every run, whatever the policy, the responses and the clock, the calls of
  \<open>retry_policy.back_off\<close> follow the schedule: each call is made at the current delay,
  passes the current delay, or the integer value of the response's Retry-After header
  when that exceeds it, so never less than the current delay, and the delay is twice
  the value passed when the next call is made.
\<close>

theorem backoff_schedule:
  "RETRY_WAIT = 10 \<and>
   backoff_chain py_int RETRY_WAIT
     (back_off_calls (snd (post_ratelimited py_int urlparse p u allow_redirects env)))"
proof -
  have "chain_inv py_int (init_state p u)"
    by (simp add: chain_inv_def init_state_def RETRY_WAIT_def)
  then show ?thesis
    using request_loop_chain [of py_int "init_state p u" urlparse allow_redirects env]
    by (simp add: post_ratelimited_counters RETRY_WAIT_def)
qed

theorem backoff_schedule_witness:
  "fst (post_ratelimited digits no_urls (FaultTolerance 3600 None) ews_url False busy_run) = Some (Inr ok)
   \<and> map (\<lambda>(w, r, d). (w, d))
        (back_off_calls (snd (post_ratelimited digits no_urls (FaultTolerance 3600 None) ews_url False busy_run)))
      = [(10, 30), (60, 60)]
   \<and> backoff_chain digits RETRY_WAIT
        (back_off_calls (snd (post_ratelimited digits no_urls (FaultTolerance 3600 None) ews_url False busy_run)))"
proof -
  have "fst (post_ratelimited digits no_urls (FaultTolerance 3600 None) ews_url False busy_run) = Some (Inr ok)"
    by (simp add: run_simps)
  moreover have "map (\<lambda>(w, r, d). (w, d))
        (back_off_calls (snd (post_ratelimited digits no_urls (FaultTolerance 3600 None) ews_url False busy_run)))
      = [(10, 30), (60, 60)]"
    by (simp add: run_simps)
  ultimately show ?thesis
    using backoff_schedule [of digits no_urls "FaultTolerance 3600 None" ews_url False busy_run] by simp
qed

lemma redirect_or_fail_Inr:
  "redirect_or_fail urlparse r k allow = Inr (u, n) \<Longrightarrow> allow \<and> n = k + 1 \<and> n \<le> MAX_REDIRECTS"
  by (auto simp: redirect_or_fail_def split: redirect.splits if_splits)

lemma ff_continue:
  assumes "iteration py_int urlparse allow s a = Continue s'" "ff_inv allow s"
  shows "ff_inv allow s'"
  using assms(1)
proof (cases rule: iteration_elim)
  case (refresh r t)
  then show ?thesis using assms(2) by (auto simp: ff_inv_def back_off_if_needed_def)
next
  case (again r w p2 t)
  then show ?thesis using assms(2) by (simp add: ff_inv_def)
next
  case (redirected r u n t)
  then show ?thesis using assms(2) redirect_or_fail_Inr [OF redirected(12)]
    by (auto simp: ff_inv_def back_off_if_needed_def)
qed simp_all

lemma ff_leave:
  assumes "iteration py_int urlparse allow s a = Leave res s'" "ff_inv allow s"
  shows "back_off_calls s' = [] \<and> slept s' = 0 \<and> retry s' = 0
     \<and> posts s' = 1 + refreshes s' + redirects s' \<and> redirects s' \<le> MAX_REDIRECTS
     \<and> (\<not> allow \<longrightarrow> redirects s' = 0)"
  using assms(1)
  by (cases rule: iteration_elim) (use assms(2) in \<open>auto simp: ff_inv_def back_off_if_needed_def\<close>)

lemma ff_loop:
  "ff_inv allow s \<Longrightarrow>
   (case request_loop py_int urlparse allow s env of (res, s') \<Rightarrow>
     back_off_calls s' = [] \<and> slept s' = 0 \<and> retry s' = 0
     \<and> posts s' = (if res = None then 0 else 1) + refreshes s' + redirects s'
     \<and> redirects s' \<le> MAX_REDIRECTS \<and> (\<not> allow \<longrightarrow> redirects s' = 0))"
proof (induction env arbitrary: s)
  case Nil
  then show ?case by (simp add: ff_inv_def)
next
  case (Cons a rest)
  show ?case
  proof (cases "iteration py_int urlparse allow s a")
    case (Continue s1)
    then show ?thesis
      using Cons.IH [of s1] ff_continue [OF Continue Cons.prems] by simp
  next
    case (Leave r s1)
    then show ?thesis
      using ff_leave [OF Leave Cons.prems] by simp
  qed
qed


lemma refresh_token_expired:
  "post_response u p = Inr r \<Longrightarrow> need_new_credentials r \<Longrightarrow> token_expired p"
  by (cases p)
     (auto simp: post_response_def token_expired_def need_new_credentials_def DummyResponse_def
           split: if_splits)

lemma no_refresh_continue:
  assumes "iteration py_int urlparse allow s a = Continue s'" "\<not> token_expired (post a)"
  shows "refreshes s' = refreshes s"
  using assms(1)
proof (cases rule: iteration_elim)
  case (refresh r t)
  then show ?thesis using assms(2) refresh_token_expired by blast
qed simp_all

lemma no_refresh_leave:
  assumes "iteration py_int urlparse allow s a = Leave res s'"
  shows "refreshes s' = refreshes s"
  using assms(1) by (cases rule: iteration_elim) simp_all

lemma no_refresh_loop:
  "\<forall>a \<in> set env. \<not> token_expired (post a) \<Longrightarrow>
   refreshes (snd (request_loop py_int urlparse allow s env)) = refreshes s"
proof (induction env arbitrary: s)
  case Nil
  then show ?case by simp
next
  case (Cons a rest)
  show ?case
  proof (cases "iteration py_int urlparse allow s a")
    case (Continue s1)
    then show ?thesis
      using Cons.IH [of s1] no_refresh_continue [OF Continue] Cons.prems by simp
  next
    case (Leave r s1)
    then show ?thesis
      using no_refresh_leave [OF Leave] by simp
  qed
qed

text \<open>
  C4, as amended. \<open>FailFast.may_retry_on_error\<close> returns False for every response and
  wait, \<open>FailFast.back_off_until\<close> is None, and \<open>FailFast.back_off\<close> raises ValueError for
  every argument. Under \<open>FailFast\<close>, \<open>post_ratelimited\<close> never calls \<open>back_off\<close>, never sleeps
  and never counts a retry; every request attempt but the last one ended in a credential
  refresh (an expired OAuth token) or in a followed redirect, of which there are at most
  \<open>MAX_REDIRECTS\<close> and none without \<open>allow_redirects\<close>; so with \<open>allow_redirects\<close> false and
  no expired token it makes at most one request attempt.
\<close>

theorem failfast_no_back_off:
  "may_retry_on_error FailFast r w = Inr False
   \<and> fst (back_off_until FailFast clock) = None
   \<and> back_off FailFast clock seconds = Inl ValueError
   \<and> (case post_ratelimited py_int urlparse FailFast u allow_redirects env of (res, s) \<Rightarrow>
        back_off_calls s = [] \<and> slept s = 0 \<and> retry s = 0
        \<and> posts s \<le> 1 + refreshes s + redirects s
        \<and> redirects s \<le> MAX_REDIRECTS
        \<and> (\<not> allow_redirects \<longrightarrow> redirects s = 0)
        \<and> ((\<forall>a \<in> set env. \<not> token_expired (post a)) \<longrightarrow> refreshes s = 0)
        \<and> (\<not> allow_redirects \<and> (\<forall>a \<in> set env. \<not> token_expired (post a)) \<longrightarrow> posts s \<le> 1))"
proof -
  have inv: "ff_inv allow_redirects (init_state FailFast u)"
    by (simp add: ff_inv_def init_state_def)
  obtain res0 s0 where run: "request_loop py_int urlparse allow_redirects (init_state FailFast u) env = (res0, s0)"
    by (cases "request_loop py_int urlparse allow_redirects (init_state FailFast u) env")
  have loop: "back_off_calls s0 = [] \<and> slept s0 = 0 \<and> retry s0 = 0
     \<and> posts s0 = (if res0 = None then 0 else 1) + refreshes s0 + redirects s0
     \<and> redirects s0 \<le> MAX_REDIRECTS \<and> (\<not> allow_redirects \<longrightarrow> redirects s0 = 0)"
    using ff_loop [OF inv, of py_int urlparse env] run by simp
  have nr: "(\<forall>a \<in> set env. \<not> token_expired (post a)) \<longrightarrow> refreshes s0 = 0"
    using no_refresh_loop [of env py_int urlparse allow_redirects "init_state FailFast u"] run
    by (simp add: init_state_def)
  obtain res s where fin: "post_ratelimited py_int urlparse FailFast u allow_redirects env = (res, s)"
    by (cases "post_ratelimited py_int urlparse FailFast u allow_redirects env")
  have same: "back_off_calls s = back_off_calls s0" "posts s = posts s0" "refreshes s = refreshes s0"
    "redirects s = redirects s0" "slept s = slept s0" "retry s = retry s0"
    using post_ratelimited_counters [of py_int urlparse FailFast u allow_redirects env] run fin
    by simp_all
  show ?thesis
    using loop nr by (simp add: fin same)
qed

theorem failfast_no_back_off_witness:
  "\<not> token_expired (Returns ok)
   \<and> fst (post_ratelimited digits no_urls FailFast ews_url False ok_run) = Some (Inr ok)
   \<and> posts (snd (post_ratelimited digits no_urls FailFast ews_url False ok_run)) = 1
   \<and> back_off_calls (snd (post_ratelimited digits no_urls FailFast ews_url False ok_run)) = []"
proof -
  have te: "\<forall>a \<in> set ok_run. \<not> token_expired (post a)"
    by (simp add: ok_run_def token_expired_def need_new_credentials_def ok_def)
  have res: "fst (post_ratelimited digits no_urls FailFast ews_url False ok_run) = Some (Inr ok)"
    by (simp add: run_simps)
  have n: "posts (snd (post_ratelimited digits no_urls FailFast ews_url False ok_run)) = 1"
    by (simp add: run_simps)
  have "back_off_calls (snd (post_ratelimited digits no_urls FailFast ews_url False ok_run)) = []"
    using failfast_no_back_off [where py_int = digits and urlparse = no_urls and u = ews_url
        and allow_redirects = False and env = ok_run]
    by (simp split: prod.splits)
  then show ?thesis
    using te res n by (simp add: ok_run_def)
qed

text \<open>
  C4 as stated fails: under \<open>FailFast\<close>, a POST that raises TokenExpiredError is followed
  by a credential refresh and a second POST.
\<close>

theorem failfast_attempts_counterexample:
  "fst (post_ratelimited digits no_urls FailFast ews_url False expired_run) = Some (Inr ok)
   \<and> posts (snd (post_ratelimited digits no_urls FailFast ews_url False expired_run)) = 2"
  by (simp add: run_simps)


section \<open>Properties of the session pool\<close>

lemma increase_inv:
  "pool_inv p \<Longrightarrow> increase_poolsize p c = Inr p' \<Longrightarrow>
   pool_inv p' \<and> session_pool_maxsize p' = session_pool_maxsize p"
  by (auto simp: pool_inv_def increase_poolsize_def split: if_splits sum.splits)

lemma decrease_inv:
  "pool_inv p \<Longrightarrow> \<exists>r. decrease_poolsize p = Some r \<and>
     (\<forall>p'. r = Inr p' \<longrightarrow> pool_inv p' \<and> session_pool_maxsize p' = session_pool_maxsize p)"
  by (cases "session_pool p")
     (auto simp: pool_inv_def decrease_poolsize_def get_session_def split: if_splits)

lemma pool_calls_inv:
  "pool_inv p \<Longrightarrow> \<exists>q. pool_calls p cs = Some q \<and> pool_inv q
      \<and> session_pool_maxsize q = session_pool_maxsize p"
proof (induction cs arbitrary: p)
  case Nil
  then show ?case by simp
next
  case (Cons c cs)
  show ?case
  proof (cases c)
    case (Increase created)
    show ?thesis
    proof (cases "increase_poolsize p created")
      case (Inl e)
      then show ?thesis using Cons.IH [OF Cons.prems] Increase by simp
    next
      case (Inr p')
      then show ?thesis
        using increase_inv [OF Cons.prems Inr] Cons.IH [of p'] Increase by simp
    qed
  next
    case Decrease
    obtain r where r: "decrease_poolsize p = Some r"
      "\<forall>p'. r = Inr p' \<longrightarrow> pool_inv p' \<and> session_pool_maxsize p' = session_pool_maxsize p"
      using decrease_inv [OF Cons.prems] by blast
    show ?thesis
    proof (cases r)
      case (Inl e)
      then show ?thesis using Cons.IH [OF Cons.prems] Decrease r by simp
    next
      case (Inr p')
      then show ?thesis using Cons.IH [of p'] Decrease r by simp
    qed
  qed
qed

text \<open>
  C5, as amended. With a maximum that is not negative (\<open>config.max_connections\<close> when it is
  set and not zero, else \<open>SESSION_POOLSIZE\<close>), every sequence of \<open>increase_poolsize\<close> and
  \<open>decrease_poolsize\<close> calls on a new BaseProtocol returns, and after it the pool size is
  between 0 and the maximum; \<open>increase_poolsize\<close> then raises SessionPoolMaxSizeReached
  when the pool is at the maximum, and \<open>decrease_poolsize\<close> raises
  SessionPoolMinSizeReached when the pool has at most one session.
\<close>

theorem pool_size_bounded:
  assumes "0 \<le> pool_maxsize mc"
  shows "\<exists>q. pool_calls (BaseProtocol mc) cs = Some q
           \<and> 0 \<le> session_pool_size q \<and> session_pool_size q \<le> pool_maxsize mc
           \<and> session_pool_maxsize q = pool_maxsize mc
           \<and> (\<forall>created. session_pool_size q \<ge> pool_maxsize mc \<longrightarrow>
                 increase_poolsize q created = Inl SessionPoolMaxSizeReached)
           \<and> (session_pool_size q \<le> 1 \<longrightarrow>
                 decrease_poolsize q = Some (Inl SessionPoolMinSizeReached))"
proof -
  have "pool_inv (BaseProtocol mc)"
    using assms by (simp add: pool_inv_def BaseProtocol_def)
  then obtain q where q: "pool_calls (BaseProtocol mc) cs = Some q" "pool_inv q"
    "session_pool_maxsize q = session_pool_maxsize (BaseProtocol mc)"
    using pool_calls_inv by blast
  then show ?thesis
    by (auto simp: pool_inv_def BaseProtocol_def increase_poolsize_def decrease_poolsize_def)
qed

theorem pool_size_bounded_witness:
  "0 \<le> pool_maxsize (Some 2)
   \<and> (\<exists>q. pool_calls (BaseProtocol (Some 2)) three_up_two_down = Some q
          \<and> session_pool_size q = 1 \<and> session_pool_maxsize q = 2
          \<and> decrease_poolsize q = Some (Inl SessionPoolMinSizeReached))"
proof -
  have h: "0 \<le> pool_maxsize (Some 2)"
    by (simp add: pool_maxsize_def)
  obtain q where q: "pool_calls (BaseProtocol (Some 2)) three_up_two_down = Some q"
    "session_pool_maxsize q = pool_maxsize (Some 2)"
    "session_pool_size q \<le> 1 \<longrightarrow> decrease_poolsize q = Some (Inl SessionPoolMinSizeReached)"
    using pool_size_bounded [OF h, of three_up_two_down] by blast
  have "pool_calls (BaseProtocol (Some 2)) three_up_two_down
          = Some \<lparr>max_connections = Some 2, session_pool_size = 1, session_pool_maxsize = 2,
                  session_pool = [\<lparr>session_id = 10001, usage_count = 0\<rparr>]\<rparr>"
    by (simp add: three_up_two_down_def BaseProtocol_def pool_maxsize_def increase_poolsize_def
          decrease_poolsize_def get_session_def)
  then have "session_pool_size q = 1"
    using q(1) by simp
  then show ?thesis
    using h q by (simp add: pool_maxsize_def)
qed

text \<open>
  C5 as stated fails for a negative \<open>max_connections\<close>, which Configuration accepts: the
  pool size of the new protocol, 0, is above the maximum.
\<close>

theorem pool_size_counterexample:
  "pool_calls (BaseProtocol (Some (- 1))) [] = Some (BaseProtocol (Some (- 1)))
   \<and> session_pool_size (BaseProtocol (Some (- 1))) = 0
   \<and> session_pool_maxsize (BaseProtocol (Some (- 1))) = - 1
   \<and> \<not> session_pool_size (BaseProtocol (Some (- 1))) \<le> session_pool_maxsize (BaseProtocol (Some (- 1)))"
  by (simp add: BaseProtocol_def pool_maxsize_def)

section \<open>Properties of Field\<close>

text \<open>
  C6. \<open>Field.supports_version(version)\<close> is True if and only if \<open>supported_from\<close> is unset
  or \<open>version.build >= supported_from\<close>, and \<open>deprecated_from\<close> is unset or
  \<open>version.build < deprecated_from\<close>. \<open>Field.clean(value, version)\<close> raises
  InvalidFieldForVersion for every field, version and value where \<open>supports_version\<close> is
  False. Otherwise (no version given, or a supported one), for the value None it returns
  the field's default, and raises ValueError when the field is required and has no
  default.
\<close>

theorem field_version_gating:
  "(supports_version f v \<longleftrightarrow>
      (supported_from f = None \<or> build v \<ge> the (supported_from f))
      \<and> (deprecated_from f = None \<or> build v < the (deprecated_from f)))
   \<and> (\<not> supports_version f v \<longrightarrow> clean f val (Some v) = Inl InvalidFieldForVersion)
   \<and> (ver = None \<or> ver = Some v \<and> supports_version f v \<longrightarrow>
        clean f PNone ver = (if is_required f \<and> default f = PNone then Inl ValueError else Inr (default f)))"
  by (auto simp: supports_version_def clean_def split: option.splits)

theorem field_version_gating_witness:
  "\<not> supports_version subject \<lparr>build = (14, 3, 0, 0), api_version = ''Exchange2010_SP2''\<rparr>
   \<and> clean subject (PStr ''hello'') (Some \<lparr>build = (14, 3, 0, 0), api_version = ''Exchange2010_SP2''\<rparr>)
        = Inl InvalidFieldForVersion
   \<and> supports_version subject \<lparr>build = (15, 1, 0, 0), api_version = ''Exchange2016''\<rparr>
   \<and> clean subject PNone (Some \<lparr>build = (15, 1, 0, 0), api_version = ''Exchange2016''\<rparr>) = Inl ValueError"
proof -
  let ?old = "\<lparr>build = (14, 3, 0, 0), api_version = ''Exchange2010_SP2''\<rparr> :: build4 version"
  let ?new = "\<lparr>build = (15, 1, 0, 0), api_version = ''Exchange2016''\<rparr> :: build4 version"
  have old: "\<not> supports_version subject ?old"
    by (simp add: supports_version_def subject_def Field_def less_prod_def)
  have new: "supports_version subject ?new"
    by (simp add: supports_version_def subject_def Field_def less_prod_def less_eq_prod_def)
  have "clean subject (PStr ''hello'') (Some ?old) = Inl InvalidFieldForVersion"
    using field_version_gating [of subject ?old "PStr ''hello''" None] old by simp
  moreover have "clean subject PNone (Some ?new) = Inl ValueError"
    using field_version_gating [of subject ?new PNone "Some ?new"] new
    by (simp add: subject_def Field_def)
  ultimately show ?thesis
    using old new by simp
qed

section \<open>Properties of the protocol cache\<close>

lemma protocol_call_keeps:
  "protocol_cache st k = Some x \<Longrightarrow>
   protocol_cache (snd (protocol_call sub st arg made clock)) k = Some x"
  by (auto simp: protocol_call_def cached_def Let_def cache_key_def
           split: option.splits config_arg.splits construction.splits prod.splits cache_entry.splits)

lemma protocol_calls_keeps:
  "protocol_cache st k = Some x \<Longrightarrow> protocol_cache (protocol_calls sub st cs) k = Some x"
proof (induction cs arbitrary: st)
  case Nil
  then show ?case by simp
next
  case (Cons c cs)
  obtain arg made clock where c: "c = (arg, made, clock)" by (cases c)
  show ?case
    using Cons.IH [OF protocol_call_keeps [OF Cons.prems, of sub arg made clock]] c by simp
qed

lemma protocol_call_hit:
  assumes "protocol_cache st (cache_key cfg) = Some (x, t)"
    "service_endpoint cfg \<noteq> None" "service_endpoint cfg \<noteq> Some []"
  shows "protocol_call sub st (Some (IsConfiguration cfg)) made clock =
           ((case x of Instance p \<Rightarrow> Inr p | Failure e \<Rightarrow> Inl e), st)"
  using assms by (cases x) (auto simp: protocol_call_def cached_def Let_def)

lemma protocol_call_returns:
  assumes "protocol_call sub st (Some (IsConfiguration cfg)) made clock = (Inr p, st')"
  shows "\<exists>t. protocol_cache st' (cache_key cfg) = Some (Instance p, t)"
    "service_endpoint cfg \<noteq> None" "service_endpoint cfg \<noteq> Some []"
  using assms
  by (auto simp: protocol_call_def cached_def Let_def
           split: option.splits construction.splits prod.splits cache_entry.splits if_splits)



text \<open>
  C9. When a construction of Protocol runs the constructor and that raises a
  TransportError, the exception is raised to the caller and stored in the protocol cache
  under the (service_endpoint, credentials) key; every later construction with an equal
  key (whatever constructions are made in between) raises the stored exception and
  leaves the cache and the count of constructor runs as they are: no Protocol is built.
  After \<open>clear_cache\<close> the key is no longer in the cache.
\<close>

theorem failure_cached:
  "protocol_call sub st (Some (IsConfiguration cfg1)) (Raises e) clock1 = (r, st1)
     \<and> is_transport_error sub e
     \<and> protocol_cache st (cache_key cfg1) = None
     \<and> service_endpoint cfg1 \<noteq> None \<and> service_endpoint cfg1 \<noteq> Some []
     \<and> cache_key cfg2 = cache_key cfg1 \<longrightarrow>
   r = Inl e
   \<and> protocol_cache st1 (cache_key cfg1) = Some (Failure e, clock1)
   \<and> protocol_call sub (protocol_calls sub st1 later) (Some (IsConfiguration cfg2)) made2 clock2
        = (Inl e, protocol_calls sub st1 later)
   \<and> protocol_cache (clear_cache (protocol_calls sub st1 later)) (cache_key cfg1) = None"
proof (intro impI, elim conjE)
  assume run: "protocol_call sub st (Some (IsConfiguration cfg1)) (Raises e) clock1 = (r, st1)"
    and te: "is_transport_error sub e"
    and miss: "protocol_cache st (cache_key cfg1) = None"
    and ep: "service_endpoint cfg1 \<noteq> None" "service_endpoint cfg1 \<noteq> Some []"
    and key: "cache_key cfg2 = cache_key cfg1"
  have r: "r = Inl e" and st1: "protocol_cache st1 (cache_key cfg1) = Some (Failure e, clock1)"
    using run te miss ep by (auto simp: protocol_call_def cached_def Let_def)
  have hit: "protocol_cache (protocol_calls sub st1 later) (cache_key cfg2) = Some (Failure e, clock1)"
    using protocol_calls_keeps [OF st1] key by metis
  have "service_endpoint cfg2 = service_endpoint cfg1"
    using key by (simp add: cache_key_def)
  then have "protocol_call sub (protocol_calls sub st1 later) (Some (IsConfiguration cfg2)) made2 clock2
        = (Inl e, protocol_calls sub st1 later)"
    using protocol_call_hit [OF hit] ep by simp
  then show "r = Inl e
   \<and> protocol_cache st1 (cache_key cfg1) = Some (Failure e, clock1)
   \<and> protocol_call sub (protocol_calls sub st1 later) (Some (IsConfiguration cfg2)) made2 clock2
        = (Inl e, protocol_calls sub st1 later)
   \<and> protocol_cache (clear_cache (protocol_calls sub st1 later)) (cache_key cfg1) = None"
    using r st1 by (simp add: clear_cache_def)
qed


theorem failure_cached_witness:
  "fst (protocol_call no_subclasses empty_cache (Some (IsConfiguration alice_cfg)) (Raises bogus) 0) = Inl bogus
   \<and> is_transport_error no_subclasses bogus
   \<and> constructions (snd (protocol_call no_subclasses empty_cache (Some (IsConfiguration alice_cfg)) (Raises bogus) 0)) = 1
   \<and> protocol_call no_subclasses
        (protocol_calls no_subclasses
           (snd (protocol_call no_subclasses empty_cache (Some (IsConfiguration alice_cfg)) (Raises bogus) 0))
           [(Some (IsConfiguration bob_cfg), Constructs, 1)])
        (Some (IsConfiguration alice_cfg_again)) Constructs 2
      = (Inl bogus,
         protocol_calls no_subclasses
           (snd (protocol_call no_subclasses empty_cache (Some (IsConfiguration alice_cfg)) (Raises bogus) 0))
           [(Some (IsConfiguration bob_cfg), Constructs, 1)])"
proof -
  let ?st1 = "snd (protocol_call no_subclasses empty_cache (Some (IsConfiguration alice_cfg)) (Raises bogus) 0)"
  have run: "protocol_call no_subclasses empty_cache (Some (IsConfiguration alice_cfg)) (Raises bogus) 0
     = (Inl bogus, ?st1)"
    by (simp add: protocol_call_def cached_def empty_cache_def alice_cfg_def ews_url_def Let_def
          is_transport_error_def bogus_def)
  have te: "is_transport_error no_subclasses bogus"
    by (simp add: is_transport_error_def bogus_def)
  have n: "constructions ?st1 = 1"
    by (simp add: protocol_call_def cached_def empty_cache_def alice_cfg_def ews_url_def Let_def
          is_transport_error_def bogus_def)
  have miss: "protocol_cache (empty_cache :: string cache_state) (cache_key alice_cfg) = None"
    by (simp add: empty_cache_def)
  have ep: "service_endpoint alice_cfg \<noteq> None" "service_endpoint alice_cfg \<noteq> Some []"
    by (simp_all add: alice_cfg_def ews_url_def)
  have key: "cache_key alice_cfg_again = cache_key alice_cfg"
    by (simp add: cache_key_def alice_cfg_def alice_cfg_again_def)
  have "protocol_call no_subclasses (protocol_calls no_subclasses ?st1 [(Some (IsConfiguration bob_cfg), Constructs, 1)])
          (Some (IsConfiguration alice_cfg_again)) Constructs 2
        = (Inl bogus, protocol_calls no_subclasses ?st1 [(Some (IsConfiguration bob_cfg), Constructs, 1)])"
    using failure_cached [of no_subclasses empty_cache alice_cfg bogus 0 "Inl bogus" ?st1 alice_cfg_again
        "[(Some (IsConfiguration bob_cfg), Constructs, 1)]" Constructs 2] run te miss ep key
    by blast
  moreover have "fst (protocol_call no_subclasses empty_cache (Some (IsConfiguration alice_cfg)) (Raises bogus) 0) = Inl bogus"
    using run by (simp add: prod_eq_iff)
  ultimately show ?thesis
    using te n by simp
qed

section \<open>Properties of the paged call\<close>

text \<open>
  C8 does not hold of the code. With \<open>max_items = 1\<close>, one folder and one server page of two
  elements, \<open>_paged_call\<close> yields both elements: \<open>_get_elems_from_page\<close> compares the count
  it was called with, which does not change while the page is read.
\<close>

theorem paged_call_exceeds_max_items:
  "paged_call (Some 1) [''inbox''] 0 [Inr [(Page (Some [''item1'', ''item2'']), None)]]
     = ([Elem ''item1'', Elem ''item2''], [(0, [''inbox''], 0)], Done)
   \<and> length (elements (fst (paged_call (Some 1) [''inbox''] 0
         [Inr [(Page (Some [''item1'', ''item2'']), None :: int option)]]))) = 2"
  by (simp add: paged_call_def paging_loop.simps reached_def set_next_offset_def add_item_count_def del_info_def
        no_next_def get_next_offset_def elements_def Let_def)

section \<open>Properties of QuerySet chaining\<close>

lemma copy_self_eq: "copy_self ops h self = (length h, h @ [h ! self])"
  by (cases "order_fields (h ! self)") (simp_all add: copy_self_def QuerySet_def Let_def)

lemma chained_all: "chained h (qs_all ops h self)"
  by (simp add: chained_def qs_all_def copy_self_eq)

lemma chained_none: "chained h (qs_none ops h self)"
  by (simp add: chained_def qs_none_def copy_self_eq)

lemma chained_filter: "chained h (qs_filter ops h self args)"
  by (simp add: chained_def qs_filter_def copy_self_eq split: sum.splits)

lemma chained_exclude: "chained h (qs_exclude ops h self args)"
  by (simp add: chained_def qs_exclude_def copy_self_eq split: sum.splits)

lemma chained_only: "chained h (qs_only ops lk h self names)"
  by (simp add: chained_def qs_only_def copy_self_eq split: sum.splits)

lemma chained_order_by: "chained h (qs_order_by ops lk h self names)"
  by (simp add: chained_def qs_order_by_def copy_self_eq split: sum.splits)


lemma chained_self:
  assumes "chained h res" "self < length h"
  shows "snd res ! self = h ! self \<and> take (length h) (snd res) = h
         \<and> (\<forall>new_qs. fst res = Inr new_qs \<longrightarrow>
               new_qs \<noteq> self \<and> length h \<le> new_qs \<and> new_qs < length (snd res))"
proof -
  obtain r h' where res: "res = (r, h')" by (cases res)
  have t: "take (length h) h' = h"
    using assms(1) res by (simp add: chained_def)
  have "h' ! self = take (length h) h' ! self"
    using assms(2) by simp
  then have "h' ! self = h ! self"
    using t by simp
  moreover have "\<forall>new_qs. r = Inr new_qs \<longrightarrow> new_qs \<noteq> self \<and> length h \<le> new_qs \<and> new_qs < length h'"
    using assms res by (auto simp: chained_def)
  ultimately show ?thesis
    using t res by simp
qed

text \<open>
  C7. Each of \<open>filter\<close>, \<open>exclude\<close>, \<open>only\<close>, \<open>order_by\<close>, \<open>none\<close> and \<open>all\<close> returns a new
  QuerySet object: \<open>all\<close> and \<open>none\<close> always, \<open>filter\<close> and \<open>exclude\<close> when the restriction
  can be built, \<open>only\<close> and \<open>order_by\<close> when the field paths are found (otherwise they
  raise). After the call the receiver, and every other object there was, is as it was
  before in all it holds: \<open>q\<close>, \<open>only_fields\<close>, \<open>order_fields\<close> and every other attribute,
  so also whatever results it has. The returned object is not one of the objects there
  were; it holds the receiver's attributes, with the one the method sets, and nothing
  else: no results come with it.
\<close>

theorem queryset_chaining:
  assumes "self < length h"
    and "res \<in> {qs_all ops h self, qs_none ops h self, qs_filter ops h self args,
                 qs_exclude ops h self args, qs_only ops lk h self names,
                 qs_order_by ops lk h self names}"
  shows "snd res ! self = h ! self
         \<and> q (snd res ! self) = q (h ! self)
         \<and> only_fields (snd res ! self) = only_fields (h ! self)
         \<and> order_fields (snd res ! self) = order_fields (h ! self)
         \<and> take (length h) (snd res) = h
         \<and> (\<forall>new_qs. fst res = Inr new_qs \<longrightarrow>
               new_qs \<noteq> self \<and> length h \<le> new_qs \<and> new_qs < length (snd res))
         \<and> fst (qs_all ops h self) = Inr (length h)
         \<and> snd (qs_all ops h self) ! length h = h ! self
         \<and> fst (qs_none ops h self) = Inr (length h)
         \<and> snd (qs_none ops h self) ! length h = (h ! self)\<lparr>q := Q_never ops\<rparr>
         \<and> (\<forall>q'. Q_new ops args = Inr q' \<longrightarrow>
               fst (qs_filter ops h self args) = Inr (length h)
               \<and> snd (qs_filter ops h self args) ! length h
                   = (h ! self)\<lparr>q := q_and ops (q (h ! self)) q'\<rparr>
               \<and> fst (qs_exclude ops h self args) = Inr (length h)
               \<and> snd (qs_exclude ops h self args) ! length h
                   = (h ! self)\<lparr>q := q_and ops (q (h ! self)) (q_invert ops q')\<rparr>)
         \<and> (\<forall>paths. tuple_of (get_field_path lk (folder_collection (h ! self)) (request_type (h ! self))) names
                 = Inr paths \<longrightarrow>
               fst (qs_only ops lk h self names) = Inr (length h)
               \<and> snd (qs_only ops lk h self names) ! length h = (h ! self)\<lparr>only_fields := Some paths\<rparr>)
         \<and> (\<forall>orders. tuple_of (get_field_order lk (folder_collection (h ! self)) (request_type (h ! self))) names
                 = Inr orders \<longrightarrow>
               fst (qs_order_by ops lk h self names) = Inr (length h)
               \<and> snd (qs_order_by ops lk h self names) ! length h
                   = (h ! self)\<lparr>order_fields := Some orders\<rparr>)"
proof -
  have "chained h res"
    using assms(2) chained_all chained_none chained_filter chained_exclude chained_only chained_order_by
    by auto
  then have frame: "snd res ! self = h ! self \<and> take (length h) (snd res) = h
         \<and> (\<forall>new_qs. fst res = Inr new_qs \<longrightarrow>
               new_qs \<noteq> self \<and> length h \<le> new_qs \<and> new_qs < length (snd res))"
    using chained_self assms(1) by blast
  have r1: "fst (qs_all ops h self) = Inr (length h) \<and> snd (qs_all ops h self) ! length h = h ! self"
    by (simp add: qs_all_def copy_self_eq)
  have r2: "fst (qs_none ops h self) = Inr (length h)
            \<and> snd (qs_none ops h self) ! length h = (h ! self)\<lparr>q := Q_never ops\<rparr>"
    by (simp add: qs_none_def copy_self_eq)
  have r3: "\<forall>q'. Q_new ops args = Inr q' \<longrightarrow>
               fst (qs_filter ops h self args) = Inr (length h)
               \<and> snd (qs_filter ops h self args) ! length h
                   = (h ! self)\<lparr>q := q_and ops (q (h ! self)) q'\<rparr>
               \<and> fst (qs_exclude ops h self args) = Inr (length h)
               \<and> snd (qs_exclude ops h self args) ! length h
                   = (h ! self)\<lparr>q := q_and ops (q (h ! self)) (q_invert ops q')\<rparr>"
    by (simp add: qs_filter_def qs_exclude_def copy_self_eq)
  have r4: "\<forall>paths. tuple_of (get_field_path lk (folder_collection (h ! self)) (request_type (h ! self))) names
                 = Inr paths \<longrightarrow>
               fst (qs_only ops lk h self names) = Inr (length h)
               \<and> snd (qs_only ops lk h self names) ! length h = (h ! self)\<lparr>only_fields := Some paths\<rparr>"
    by (simp add: qs_only_def copy_self_eq)
  have r5: "\<forall>orders. tuple_of (get_field_order lk (folder_collection (h ! self)) (request_type (h ! self))) names
                 = Inr orders \<longrightarrow>
               fst (qs_order_by ops lk h self names) = Inr (length h)
               \<and> snd (qs_order_by ops lk h self names) ! length h
                   = (h ! self)\<lparr>order_fields := Some orders\<rparr>"
    by (simp add: qs_order_by_def copy_self_eq)
  show ?thesis
    using frame r1 r2 r3 r4 r5 by simp
qed

theorem queryset_chaining_witness:
  "(0::nat) < length inbox_store
   \<and> fst (qs_filter term_ops inbox_store 0 [''flagged'']) = Inr 1
   \<and> q (snd (qs_filter term_ops inbox_store 0 [''flagged'']) ! 1) = [''unread'', ''flagged'']
   \<and> q (snd (qs_filter term_ops inbox_store 0 [''flagged'']) ! 0) = [''unread'']
   \<and> snd (qs_filter term_ops inbox_store 0 [''flagged'']) ! 0 = inbox_store ! 0"
proof -
  have len: "(0::nat) < length inbox_store"
    by (simp add: inbox_store_def)
  have mem: "qs_filter term_ops inbox_store 0 [''flagged'']
      \<in> {qs_all term_ops inbox_store 0, qs_none term_ops inbox_store 0,
          qs_filter term_ops inbox_store 0 [''flagged''], qs_exclude term_ops inbox_store 0 [''flagged''],
          qs_only term_ops name_lookups inbox_store 0 [''subject''],
          qs_order_by term_ops name_lookups inbox_store 0 [''subject'']}"
    by simp
  have fr: "snd (qs_filter term_ops inbox_store 0 [''flagged'']) ! 0 = inbox_store ! 0"
    using queryset_chaining [OF len mem] by blast
  have new: "fst (qs_filter term_ops inbox_store 0 [''flagged'']) = Inr 1"
    by (simp add: qs_filter_def copy_self_eq term_ops_def inbox_store_def)
  have newq: "q (snd (qs_filter term_ops inbox_store 0 [''flagged'']) ! 1) = [''unread'', ''flagged'']"
    by (simp add: qs_filter_def copy_self_eq term_ops_def inbox_store_def QuerySet_def)
  have "q (inbox_store ! 0) = [''unread'']"
    by (simp add: inbox_store_def)
  then show ?thesis
    using len fr new newq by simp
qed

section \<open>Properties of the XML marshalling\<close>

lemma map_of_dict_set: "map_of (dict_set k v d) = (map_of d)(k \<mapsto> v)"
  by (induction k v d rule: dict_set.induct) auto

lemma keys_dict_set: "fst ` set (dict_set k v d) = insert k (fst ` set d)"
  by (induction k v d rule: dict_set.induct) auto

lemma distinct_dict_set: "distinct (map fst d) \<Longrightarrow> distinct (map fst (dict_set k v d))"
proof (induction k v d rule: dict_set.induct)
  case (1 k v)
  then show ?case by simp
next
  case (2 k v k' v' d)
  then show ?case
    using keys_dict_set [of k v d] by (auto simp: image_iff)
qed

lemma collect_attrs_distinct:
  "collect_attrs fs vals acc = Inr attrs \<Longrightarrow> distinct (map fst acc) \<Longrightarrow> distinct (map fst attrs)"
proof (induction fs vals acc rule: collect_attrs.induct)
  case (1 f fs val vals attrs')
  then show ?case
    by (auto simp: distinct_dict_set split: if_splits sum.splits)
qed simp_all

lemma collect_attrs_other:
  "collect_attrs fs vals acc = Inr attrs \<Longrightarrow>
   \<forall>(f, val) \<in> set (zip fs vals). written_attr f val \<longrightarrow> field_uri f \<noteq> k \<Longrightarrow>
   map_of attrs k = map_of acc k"
proof (induction fs vals acc rule: collect_attrs.induct)
  case (1 f fs val vals attrs')
  show ?case
  proof (cases "written_attr f val")
    case True
    then obtain t where t: "value_to_xml_text val = Inr t"
      using "1.prems"(1) by (auto simp: written_attr_def split: sum.splits)
    have ne: "field_uri f \<noteq> k"
      using "1.prems"(2) True by simp
    have "map_of attrs k = map_of (dict_set (field_uri f) t attrs') k"
      using "1.IH"(4) [of t] "1.prems" True t by (simp add: written_attr_def)
    then show ?thesis
      using ne by (simp add: map_of_dict_set)
  next
    case False
    then show ?thesis
      using "1.IH"(1,2,3) "1.prems" by (auto simp: written_attr_def split: if_splits)
  qed
qed simp_all

lemma collect_attrs_written:
  "collect_attrs fs vals acc = Inr attrs \<Longrightarrow>
   distinct (map field_uri (filter is_attribute fs)) \<Longrightarrow>
   (f, val) \<in> set (zip fs vals) \<Longrightarrow> written_attr f val \<Longrightarrow>
   \<exists>t. value_to_xml_text val = Inr t \<and> map_of attrs (field_uri f) = Some t"
proof (induction fs vals acc rule: collect_attrs.induct)
  case (1 g fs w vals attrs')
  show ?case
  proof (cases "(f, val) \<in> set (zip fs vals)")
    case True
    then have fin: "f \<in> set fs"
      by (meson set_zip_leftD)
    have fa: "is_attribute f"
      using "1.prems"(4) by (simp add: written_attr_def)
    show ?thesis
    proof (cases "written_attr g w")
      case True
      then obtain t where t: "value_to_xml_text w = Inr t"
        using "1.prems"(1) by (auto simp: written_attr_def split: sum.splits)
      have "distinct (map field_uri (filter is_attribute fs))"
        using "1.prems"(2) by (simp split: if_splits)
      then show ?thesis
        using "1.IH"(4) [of t] "1.prems" True t \<open>(f, val) \<in> set (zip fs vals)\<close>
        by (simp add: written_attr_def)
    next
      case False
      have "distinct (map field_uri (filter is_attribute fs))"
        using "1.prems"(2) by (simp split: if_splits)
      then show ?thesis
        using "1.IH"(1,2,3) "1.prems" False \<open>(f, val) \<in> set (zip fs vals)\<close>
        by (auto simp: written_attr_def split: if_splits)
    qed
  next
    case False
    then have hd: "f = g" "val = w"
      using "1.prems"(3) by auto
    then obtain t where t: "value_to_xml_text val = Inr t"
      using "1.prems"(1,4) by (auto simp: written_attr_def split: sum.splits)
    have rest: "collect_attrs fs vals (dict_set (field_uri f) t attrs') = Inr attrs"
      using "1.prems"(1,4) hd t by (simp add: written_attr_def)
    have "\<forall>(h, u) \<in> set (zip fs vals). written_attr h u \<longrightarrow> field_uri h \<noteq> field_uri f"
    proof (clarify)
      fix h u
      assume hu: "(h, u) \<in> set (zip fs vals)" and wh: "written_attr h u" and eq: "field_uri h = field_uri f"
      have "h \<in> set (filter is_attribute fs)"
        using hu wh by (auto simp: written_attr_def dest: set_zip_leftD)
      then have "field_uri h \<in> set (map field_uri (filter is_attribute fs))"
        by (simp only: set_map) (rule imageI)
      moreover have "field_uri f \<notin> set (map field_uri (filter is_attribute fs))"
        using "1.prems"(2,4) hd by (simp add: written_attr_def)
      ultimately show False using eq by simp
    qed
    then have "map_of attrs (field_uri f) = map_of (dict_set (field_uri f) t attrs') (field_uri f)"
      using collect_attrs_other [OF rest] by blast
    then show ?thesis
      using t by (simp add: map_of_dict_set)
  qed
qed simp_all

lemma set_attrs_lookup:
  "set_attrs attrs acc = Inr kvs \<Longrightarrow> distinct (map fst attrs) \<Longrightarrow>
   map_of kvs k = (case map_of attrs (Some k) of Some v \<Rightarrow> Some v | None \<Rightarrow> map_of acc k)"
proof (induction attrs acc rule: set_attrs.induct)
  case (1 acc)
  then show ?case by simp
next
  case (2 v kvs' acc)
  then show ?case by simp
next
  case (3 k0 v0 rest acc)
  have none: "map_of rest (Some k0) = None"
    using "3.prems"(2) by (simp add: map_of_eq_None_iff)
  show ?case
    using "3.IH" "3.prems" none by (auto simp: map_of_dict_set split: option.splits)
qed


lemma split_on_nonempty: "split_on c s \<noteq> []"
  by (induction s) (auto split: list.splits)

lemma split_on_single: "split_on c s = [l] \<Longrightarrow> l = s"
proof (induction s arbitrary: l)
  case Nil
  then show ?case by simp
next
  case (Cons x xs)
  show ?case
  proof (cases "x = c")
    case True
    then show ?thesis using Cons.prems split_on_nonempty [of c xs] by simp
  next
    case False
    obtain p ps where sp: "split_on c xs = p # ps"
      using split_on_nonempty [of c xs] by (cases "split_on c xs") auto
    then have "ps = []" "l = x # p"
      using Cons.prems False by auto
    then show ?thesis
      using Cons.IH [of p] sp by simp
  qed
qed

lemma create_element_t:
  assumes "create_element (''t:'' @ p) [] = Inr e"
  shows "e = Element (''{'' @ TNS @ ''}'' @ p) [] None []"
proof -
  have sp: "split_on CHR '':'' (''t:'' @ p) = ''t'' # split_on CHR '':'' p"
    by (cases "split_on CHR '':'' p") simp_all
  obtain l where l: "split_on CHR '':'' p = [l]"
    using assms sp
    by (cases "split_on CHR '':'' p"; cases "tl (split_on CHR '':'' p)")
       (auto simp: create_element_def split: list.splits)
  then have "l = p"
    by (rule split_on_single)
  then show ?thesis
    using assms sp l by (simp add: create_element_def ns_translation_def)
qed

lemma set_xml_value_tag:
  "set_xml_value e v = Inr e' \<Longrightarrow> tag e' = tag e"
  "set_xml_values e vs = Inr e' \<Longrightarrow> tag e' = tag e"
proof (induction e v and e vs arbitrary: e' and e' rule: set_xml_value_set_xml_values.induct)
  case (8 elem v vs)
  then show ?case
    by (auto split: sum.splits)
qed auto

lemma field_to_xml_child:
  assumes "field_to_xml f val = Inr child"
  shows "tag child = field_tag f"
    and "field_uri_postfix f \<noteq> None" and "field_uri_postfix f \<noteq> Some []"
    and "value_to_xml_text val = Inr t \<Longrightarrow> child = Element (field_tag f) [] (Some t) []"
proof -
  obtain p where p: "field_uri_postfix f = Some p" "p \<noteq> []" "field_request_tag f = Inr (''t:'' @ p)"
    using assms by (auto simp: field_to_xml_def field_request_tag_def split: option.splits if_splits)
  obtain e where e: "create_element (''t:'' @ p) [] = Inr e" "set_xml_value e val = Inr child"
    using assms p by (auto simp: field_to_xml_def split: sum.splits)
  have e': "e = Element (field_tag f) [] None []"
    using create_element_t [OF e(1)] p by (simp add: field_tag_def)
  show "tag child = field_tag f"
    using set_xml_value_tag(1) [OF e(2)] e' by simp
  show "field_uri_postfix f \<noteq> None" "field_uri_postfix f \<noteq> Some []"
    using p by simp_all
  show "value_to_xml_text val = Inr t \<Longrightarrow> child = Element (field_tag f) [] (Some t) []"
    using e(2) e' by (cases val) auto
qed

lemma find_snoc:
  "List.find P (xs @ [y]) = (case List.find P xs of Some x \<Rightarrow> Some x | None \<Rightarrow> if P y then Some y else None)"
  by (induction xs) auto

lemma add_elements_attrib:
  "add_elements fs vals v elem = Inr elem' \<Longrightarrow> attrib elem' = attrib elem"
proof (induction fs vals v elem rule: add_elements.induct)
  case (1 f fs val vals v elem)
  then show ?case
    by (auto split: if_splits sum.splits)
qed simp_all

lemma add_elements_keeps:
  "add_elements fs vals v elem = Inr elem' \<Longrightarrow> find_child elem t = Some c \<Longrightarrow>
   find_child elem' t = Some c"
proof (induction fs vals v elem rule: add_elements.induct)
  case (1 f fs val vals v elem)
  then show ?case
    by (auto simp: find_child_def find_snoc split: if_splits sum.splits)
qed simp_all

lemma add_elements_other:
  "add_elements fs vals v elem = Inr elem' \<Longrightarrow>
   \<forall>(f, val) \<in> set (zip fs vals). written_elem f v val \<longrightarrow> field_tag f \<noteq> t \<Longrightarrow>
   find_child elem' t = find_child elem t"
proof (induction fs vals v elem rule: add_elements.induct)
  case (1 f fs val vals v elem)
  show ?case
  proof (cases "written_elem f v val")
    case True
    then obtain child where ch: "field_to_xml f val = Inr child"
      using "1.prems"(1) by (auto simp: written_elem_def split: sum.splits)
    let ?elem1 = "Element (tag elem) (attrib elem) (elem_text elem) (children elem @ [child])"
    have rest: "add_elements fs vals v ?elem1 = Inr elem'"
      using "1.prems"(1) True ch by (simp add: written_elem_def)
    have "tag child \<noteq> t"
      using field_to_xml_child(1) [OF ch] "1.prems"(2) True by simp
    then have "find_child ?elem1 t = find_child elem t"
      by (simp add: find_child_def find_snoc split: option.splits)
    moreover have "find_child elem' t = find_child ?elem1 t"
      using "1.IH"(4) [OF _ _ _ ch rest] "1.prems"(2) True by (simp add: written_elem_def)
    ultimately show ?thesis by simp
  next
    case False
    then show ?thesis
      using "1.IH"(1,2,3) "1.prems" by (auto simp: written_elem_def split: if_splits)
  qed
qed simp_all


lemma add_elements_succeeds:
  "add_elements fs vals v elem = Inr elem' \<Longrightarrow> (f, val) \<in> set (zip fs vals) \<Longrightarrow>
   written_elem f v val \<Longrightarrow> \<exists>child. field_to_xml f val = Inr child"
proof (induction fs vals v elem rule: add_elements.induct)
  case (1 g fs w vals v elem)
  then show ?case
    by (auto simp: written_elem_def split: if_splits sum.splits)
qed simp_all

lemma postfix_in_tail:
  assumes "(f, val) \<in> set (zip fs vals)" "\<not> is_attribute f"
  shows "field_uri_postfix f \<in> set (map field_uri_postfix (filter (\<lambda>f. \<not> is_attribute f) fs))"
proof -
  have "f \<in> set (filter (\<lambda>f. \<not> is_attribute f) fs)"
    using assms by (auto dest: set_zip_leftD)
  then show ?thesis
    by (simp only: set_map) (rule imageI)
qed

lemma uri_in_tail:
  assumes "(f, val) \<in> set (zip fs vals)" "is_attribute f"
  shows "field_uri f \<in> set (map field_uri (filter is_attribute fs))"
proof -
  have "f \<in> set (filter is_attribute fs)"
    using assms by (auto dest: set_zip_leftD)
  then show ?thesis
    by (simp only: set_map) (rule imageI)
qed

lemma field_tag_differs:
  assumes "field_uri_postfix f \<noteq> field_uri_postfix g" "field_uri_postfix f \<noteq> None" "field_uri_postfix g \<noteq> None"
  shows "field_tag g \<noteq> field_tag f"
  using assms by (auto simp: field_tag_def)

lemma add_elements_written:
  "add_elements fs vals v elem = Inr elem' \<Longrightarrow>
   distinct (map field_uri_postfix (filter (\<lambda>f. \<not> is_attribute f) fs)) \<Longrightarrow>
   (f, val) \<in> set (zip fs vals) \<Longrightarrow> written_elem f v val \<Longrightarrow>
   find_child elem (field_tag f) = None \<Longrightarrow>
   \<exists>child. field_to_xml f val = Inr child \<and> find_child elem' (field_tag f) = Some child"
proof (induction fs vals v elem rule: add_elements.induct)
  case (1 g fs w vals v elem)
  have dist: "distinct (map field_uri_postfix (filter (\<lambda>f. \<not> is_attribute f) fs))"
    using "1.prems"(2) by (simp split: if_splits)
  have fe: "\<not> is_attribute f"
    using "1.prems"(4) by (simp add: written_elem_def)
  show ?case
  proof (cases "(f, val) \<in> set (zip fs vals)")
    case True
    note tail = True
    show ?thesis
    proof (cases "written_elem g v w")
      case True
      then obtain child where ch: "field_to_xml g w = Inr child"
        using "1.prems"(1) by (auto simp: written_elem_def split: sum.splits)
      let ?elem1 = "Element (tag elem) (attrib elem) (elem_text elem) (children elem @ [child])"
      have rest: "add_elements fs vals v ?elem1 = Inr elem'"
        using "1.prems"(1) True ch by (simp add: written_elem_def)
      obtain fc where fc: "field_to_xml f val = Inr fc"
        using add_elements_succeeds [OF rest tail "1.prems"(4)] by blast
      have "field_uri_postfix g \<notin> set (map field_uri_postfix (filter (\<lambda>f. \<not> is_attribute f) fs))"
        using "1.prems"(2) True by (simp add: written_elem_def)
      then have "field_uri_postfix f \<noteq> field_uri_postfix g"
        using postfix_in_tail [OF tail fe] by metis
      then have "tag child \<noteq> field_tag f"
        using field_tag_differs field_to_xml_child(1,2) [OF ch] field_to_xml_child(2) [OF fc]
        by metis
      then have "find_child ?elem1 (field_tag f) = None"
        using "1.prems"(5) by (simp add: find_child_def find_snoc)
      then show ?thesis
        using "1.IH"(4) [OF _ _ _ ch rest dist tail "1.prems"(4)] True
        by (simp add: written_elem_def)
    next
      case False
      then have "add_elements fs vals v elem = Inr elem'"
        using "1.prems"(1) by (auto simp: written_elem_def split: if_splits)
      then show ?thesis
        using "1.IH"(1,2,3) False dist tail "1.prems"(4,5)
        by (auto simp: written_elem_def split: if_splits)
    qed
  next
    case False
    then have hd: "g = f" "w = val"
      using "1.prems"(3) by auto
    obtain child where ch: "field_to_xml f val = Inr child"
      using "1.prems"(1,4) hd by (auto simp: written_elem_def split: sum.splits)
    let ?elem1 = "Element (tag elem) (attrib elem) (elem_text elem) (children elem @ [child])"
    have rest: "add_elements fs vals v ?elem1 = Inr elem'"
      using "1.prems"(1,4) hd ch by (simp add: written_elem_def)
    have "find_child ?elem1 (field_tag f) = Some child"
      using "1.prems"(5) field_to_xml_child(1) [OF ch] by (simp add: find_child_def find_snoc)
    then show ?thesis
      using add_elements_keeps [OF rest] ch by blast
  qed
qed simp_all

lemma add_elements_unwritten:
  "add_elements fs vals v elem = Inr elem' \<Longrightarrow>
   distinct (map field_uri_postfix (filter (\<lambda>f. \<not> is_attribute f) fs)) \<Longrightarrow>
   (f, val) \<in> set (zip fs vals) \<Longrightarrow> \<not> is_attribute f \<Longrightarrow> \<not> written_elem f v val \<Longrightarrow>
   field_uri_postfix f \<noteq> None \<Longrightarrow>
   find_child elem (field_tag f) = None \<Longrightarrow>
   find_child elem' (field_tag f) = None"
proof (induction fs vals v elem rule: add_elements.induct)
  case (1 g fs w vals v elem)
  have dist: "distinct (map field_uri_postfix (filter (\<lambda>f. \<not> is_attribute f) fs))"
    using "1.prems"(2) by (simp split: if_splits)
  show ?case
  proof (cases "(f, val) \<in> set (zip fs vals)")
    case True
    note tail = True
    show ?thesis
    proof (cases "written_elem g v w")
      case True
      then obtain child where ch: "field_to_xml g w = Inr child"
        using "1.prems"(1) by (auto simp: written_elem_def split: sum.splits)
      let ?elem1 = "Element (tag elem) (attrib elem) (elem_text elem) (children elem @ [child])"
      have rest: "add_elements fs vals v ?elem1 = Inr elem'"
        using "1.prems"(1) True ch by (simp add: written_elem_def)
      have "field_uri_postfix g \<notin> set (map field_uri_postfix (filter (\<lambda>f. \<not> is_attribute f) fs))"
        using "1.prems"(2) True by (simp add: written_elem_def)
      then have "field_uri_postfix f \<noteq> field_uri_postfix g"
        using postfix_in_tail [OF tail "1.prems"(4)] by metis
      then have "tag child \<noteq> field_tag f"
        using field_tag_differs field_to_xml_child(1,2) [OF ch] "1.prems"(6)
        by metis
      then have "find_child ?elem1 (field_tag f) = None"
        using "1.prems"(7) by (simp add: find_child_def find_snoc)
      then show ?thesis
        using "1.IH"(4) [OF _ _ _ ch rest dist tail "1.prems"(4,5,6)] True
        by (simp add: written_elem_def)
    next
      case False
      then have "add_elements fs vals v elem = Inr elem'"
        using "1.prems"(1) by (auto simp: written_elem_def split: if_splits)
      then show ?thesis
        using "1.IH"(1,2,3) False dist tail "1.prems"(4,5,6,7)
        by (auto simp: written_elem_def split: if_splits)
    qed
  next
    case False
    then have hd: "g = f" "w = val"
      using "1.prems"(3) by auto
    have rest: "add_elements fs vals v elem = Inr elem'"
      using "1.prems"(1,4,5) hd by (auto simp: written_elem_def split: if_splits)
    have "\<forall>(h, u) \<in> set (zip fs vals). written_elem h v u \<longrightarrow> field_tag h \<noteq> field_tag f"
    proof (clarify)
      fix h u
      assume hu: "(h, u) \<in> set (zip fs vals)" and wh: "written_elem h v u" and eq: "field_tag h = field_tag f"
      have he: "\<not> is_attribute h"
        using wh by (simp add: written_elem_def)
      obtain hc where "field_to_xml h u = Inr hc"
        using add_elements_succeeds [OF rest hu wh] by blast
      then have hp: "field_uri_postfix h \<noteq> None"
        using field_to_xml_child(2) by blast
      have "field_uri_postfix f \<notin> set (map field_uri_postfix (filter (\<lambda>f. \<not> is_attribute f) fs))"
        using "1.prems"(2,4) hd by simp
      then have "field_uri_postfix h \<noteq> field_uri_postfix f"
        using postfix_in_tail [OF hu he] by metis
      then show False
        using field_tag_differs [of h f] hp "1.prems"(6) eq by metis
    qed
    then show ?thesis
      using add_elements_other [OF rest] "1.prems"(7) by simp
  qed
qed simp_all

lemma collect_attrs_unwritten:
  "collect_attrs fs vals acc = Inr attrs \<Longrightarrow>
   distinct (map field_uri (filter is_attribute fs)) \<Longrightarrow>
   (f, val) \<in> set (zip fs vals) \<Longrightarrow> is_attribute f \<Longrightarrow> \<not> written_attr f val \<Longrightarrow>
   map_of acc (field_uri f) = None \<Longrightarrow>
   map_of attrs (field_uri f) = None"
proof (induction fs vals acc rule: collect_attrs.induct)
  case (1 g fs w vals acc)
  have dist: "distinct (map field_uri (filter is_attribute fs))"
    using "1.prems"(2) by (simp split: if_splits)
  show ?case
  proof (cases "(f, val) \<in> set (zip fs vals)")
    case True
    note tail = True
    show ?thesis
    proof (cases "written_attr g w")
      case True
      then obtain t where t: "value_to_xml_text w = Inr t"
        using "1.prems"(1) by (auto simp: written_attr_def split: sum.splits)
      have rest: "collect_attrs fs vals (dict_set (field_uri g) t acc) = Inr attrs"
        using "1.prems"(1) True t by (simp add: written_attr_def)
      have "field_uri g \<notin> set (map field_uri (filter is_attribute fs))"
        using "1.prems"(2) True by (simp add: written_attr_def)
      then have "field_uri f \<noteq> field_uri g"
        using uri_in_tail [OF tail "1.prems"(4)] by metis
      then have "map_of (dict_set (field_uri g) t acc) (field_uri f) = None"
        using "1.prems"(6) by (simp add: map_of_dict_set)
      then show ?thesis
        using "1.IH"(4) [OF _ _ _ t rest dist tail "1.prems"(4,5)] True
        by (simp add: written_attr_def)
    next
      case False
      then have "collect_attrs fs vals acc = Inr attrs"
        using "1.prems"(1) by (auto simp: written_attr_def split: if_splits)
      then show ?thesis
        using "1.IH"(1,2,3) False dist tail "1.prems"(4,5,6)
        by (auto simp: written_attr_def split: if_splits)
    qed
  next
    case False
    then have hd: "g = f" "w = val"
      using "1.prems"(3) by auto
    have rest: "collect_attrs fs vals acc = Inr attrs"
      using "1.prems"(1,4,5) hd by (auto simp: written_attr_def split: if_splits)
    have "\<forall>(h, u) \<in> set (zip fs vals). written_attr h u \<longrightarrow> field_uri h \<noteq> field_uri f"
    proof (clarify)
      fix h u
      assume hu: "(h, u) \<in> set (zip fs vals)" and wh: "written_attr h u" and eq: "field_uri h = field_uri f"
      have ha: "is_attribute h"
        using wh by (simp add: written_attr_def)
      have "field_uri f \<notin> set (map field_uri (filter is_attribute fs))"
        using "1.prems"(2,4) hd by simp
      then show False
        using uri_in_tail [OF hu ha] eq by metis
    qed
    then show ?thesis
      using collect_attrs_other [OF rest] "1.prems"(6) by simp
  qed
qed simp_all

lemma tuple_of_all2:
  "list_all2 (\<lambda>x y. g x = Inr y) xs ys \<Longrightarrow> tuple_of g xs = Inr ys"
  by (induction xs ys rule: list_all2_induct) simp_all

lemma safe_legal: "legal_text s \<Longrightarrow> safe_xml_value s = s"
  by (simp add: legal_text_def safe_xml_value_def list_all_iff map_idI)


lemma create_element_shape:
  assumes "create_element t attrs = Inr elem"
  shows "\<exists>kvs. set_attrs attrs [] = Inr kvs \<and> attrib elem = kvs \<and> children elem = []"
  using assms by (auto simp: create_element_def split: sum.splits)

lemma field_roundtrip:
  assumes col: "collect_attrs fs vals [] = Inr attrs"
    and cre: "create_element t attrs = Inr elem0"
    and add: "add_elements fs vals v elem0 = Inr elem"
    and d1: "distinct (map field_uri (filter is_attribute fs))"
    and d2: "distinct (map field_uri_postfix (filter (\<lambda>f. \<not> is_attribute f) fs))"
    and mem: "(f, val) \<in> set (zip fs vals)"
    and ns: "namespace f = TNS" and uri: "field_uri f \<noteq> None"
    and pf: "\<not> is_attribute f \<longrightarrow> field_uri_postfix f \<noteq> Some []"
    and sv: "survives py_int f v val"
  shows "field_from_xml py_int f elem = Inr val"
proof -
  obtain u where u: "field_uri f = Some u"
    using uri by blast
  obtain kvs where kvs: "set_attrs attrs [] = Inr kvs" "attrib elem0 = kvs" "children elem0 = []"
    using create_element_shape [OF cre] by blast
  have attrs_distinct: "distinct (map fst attrs)"
    using collect_attrs_distinct [OF col] by simp
  have look: "map_of (attrib elem) u = map_of attrs (Some u)"
    using set_attrs_lookup [OF kvs(1) attrs_distinct, of u] add_elements_attrib [OF add] kvs(2)
    by (simp split: option.splits)
  have nochild: "find_child elem0 (field_tag f) = None"
    using kvs(3) by (simp add: find_child_def)
  show ?thesis
  proof (cases "is_attribute f")
    case True
    note attr = True
    show ?thesis
    proof (cases "written_attr f val")
      case True
      then have w: "written f v val"
        using attr by (simp add: written_def written_attr_def)
      then obtain t where t: "value_to_xml_text val = Inr t" "t \<noteq> []"
          "xml_text_to_value py_int t (value_cls f) = Inr val"
        using sv by (auto simp: survives_def reads_back_def split: sum.splits)
      obtain t' where "value_to_xml_text val = Inr t'" "map_of attrs (field_uri f) = Some t'"
        using collect_attrs_written [OF col d1 mem True] by blast
      then have "map_of attrs (Some u) = Some t"
        using t(1) u by simp
      then show ?thesis
        using look attr u t(2,3)
        by (simp add: field_from_xml_def get_val_from_elem_def)
    next
      case False
      then have nw: "\<not> written f v val"
        using attr by (simp add: written_def written_attr_def)
      then have dv: "val = default f"
        using sv by (simp add: survives_def)
      have "map_of attrs (field_uri f) = None"
        using collect_attrs_unwritten [OF col d1 mem attr False] by simp
      then show ?thesis
        using look attr u dv by (simp add: field_from_xml_def get_val_from_elem_def)
    qed
  next
    case False
    note el = False
    obtain p where p: "field_uri_postfix f = Some p" "p \<noteq> []"
      using u pf el by (auto simp: field_uri_postfix_def split: if_splits)
    have rt: "field_response_tag f = Inr (field_tag f)"
      using p ns by (simp add: field_response_tag_def field_tag_def)
    show ?thesis
    proof (cases "written_elem f v val")
      case True
      then have w: "written f v val"
        by (simp add: written_def written_elem_def)
      then obtain t where t: "value_to_xml_text val = Inr t" "t \<noteq> []"
          "xml_text_to_value py_int t (value_cls f) = Inr val"
        using sv by (auto simp: survives_def reads_back_def split: sum.splits)
      obtain child where ch: "field_to_xml f val = Inr child" "find_child elem (field_tag f) = Some child"
        using add_elements_written [OF add d2 mem True nochild] by blast
      have "child = Element (field_tag f) [] (Some t) []"
        using field_to_xml_child(4) [OF ch(1) t(1)] by simp
      then have "get_xml_attr elem (field_tag f) = Some t"
        using ch(2) t(2) by (simp add: get_xml_attr_def)
      then show ?thesis
        using el rt t(3)
        by (simp add: field_from_xml_def get_val_from_elem_def)
    next
      case False
      then have nw: "\<not> written f v val"
        using el by (auto simp: written_def written_elem_def)
      then have dv: "val = default f"
        using sv by (simp add: survives_def)
      have "find_child elem (field_tag f) = None"
        using add_elements_unwritten [OF add d2 mem el False _ nochild] p by simp
      then have "get_xml_attr elem (field_tag f) = None"
        by (simp add: get_xml_attr_def)
      then show ?thesis
        using el rt dv by (simp add: field_from_xml_def get_val_from_elem_def)
    qed
  qed
qed

text \<open>
  The values that read back are the texts of str fields that are not empty and hold no
  illegal XML character, and the ints of int fields whose decimal text \<^verbatim>\<open>int\<close> parses to
  the same int. A bool does not: it is written as \<^verbatim>\<open>1\<close> or \<^verbatim>\<open>0\<close>, which
  \<open>xml_text_to_value\<close> reads as None.
\<close>

lemma legal_text_iff: "legal_text s \<longleftrightarrow> s \<noteq> [] \<and> safe_xml_value s = s"
proof
  assume "legal_text s"
  then show "s \<noteq> [] \<and> safe_xml_value s = s"
    using safe_legal by (simp add: legal_text_def)
next
  assume a: "s \<noteq> [] \<and> safe_xml_value s = s"
  have "\<not> illegal_xml_char c" if "c \<in> set s" for c
  proof
    assume ill: "illegal_xml_char c"
    have "\<not> illegal_xml_char CHR ''?''"
      by (simp add: illegal_xml_char_def)
    then have "\<forall>d \<in> set (safe_xml_value s). \<not> illegal_xml_char d"
      by (auto simp: safe_xml_value_def)
    then show False
      using a that ill by simp
  qed
  then show "legal_text s"
    using a by (simp add: legal_text_def list_all_iff)
qed

lemma one_zero_not_bool:
  "map_of [(''true'', True), (''on'', True), (''false'', False), (''off'', False)]
     (lower (if b then ''1'' else ''0'')) = None"
  by (cases b) (simp_all add: lower_def)

lemma str_of_int_nonempty: "str_of_int i \<noteq> []"
proof -
  have "digits_of n \<noteq> []" for n
    by (subst digits_of.simps) simp
  then show ?thesis
    by (simp add: str_of_int_def)
qed

lemma reads_back_iff:
  "reads_back py_int f val \<longleftrightarrow>
     (\<exists>s. val = PStr s \<and> value_cls f = Some CStr \<and> legal_text s)
     \<or> (\<exists>i. val = PInt i \<and> value_cls f = Some CInt \<and> py_int (str_of_int i) = Some i)"
proof (cases val)
  case (PStr s)
  then show ?thesis
    by (cases "value_cls f"; cases "the (value_cls f)")
       (auto simp: reads_back_def xml_text_to_value_def legal_text_iff split: option.splits)
next
  case (PBool b)
  then show ?thesis
    using one_zero_not_bool [of b]
    by (cases "value_cls f"; cases "the (value_cls f)")
       (auto simp: reads_back_def xml_text_to_value_def split: option.splits)
next
  case (PInt i)
  then show ?thesis
    using str_of_int_nonempty [of i]
    by (cases "value_cls f"; cases "the (value_cls f)")
       (auto simp: reads_back_def xml_text_to_value_def split: option.splits)
qed (simp_all add: reads_back_def)




end
